theory Spec2Isabelle
  imports Main "HOL-Library.Word" "HOL-Library.Sublist"
begin

unbundle bit_operations_syntax

section \<open>Runtime primitives used by \<^verbatim>\<open>src/lib/r2.ts\<close>\<close>

text \<open>
  A JavaScript string is modelled as the list of its code units, restricted to code units
  below 256 (type \<^typ>\<open>char\<close>). A \<^verbatim>\<open>Buffer\<close> is a list of bytes.
\<close>

type_synonym byte = "8 word"
type_synonym bytes = "byte list"
type_synonym word32 = "32 word"

text \<open>\<^verbatim>\<open>String.prototype.toLowerCase\<close> on code units below 256.\<close>

definition toLowerCase_char :: "char \<Rightarrow> char" where
  "toLowerCase_char c =
     (let n = (of_char c :: nat) in
      if (65 \<le> n \<and> n \<le> 90) \<or> (192 \<le> n \<and> n \<le> 222 \<and> n \<noteq> 215)
      then char_of (n + 32) else c)"

definition toLowerCase :: "string \<Rightarrow> string" where
  "toLowerCase s = map toLowerCase_char s"

text \<open>
  Case folding of a regular expression with the \<^verbatim>\<open>i\<close> flag (no \<^verbatim>\<open>u\<close> flag):
  both sides are upper-cased, and a code unit of 128 or more never folds to an ASCII one,
  so against an ASCII pattern letter only the two ASCII cases match.
\<close>

definition canonicalize :: "char \<Rightarrow> char" where
  "canonicalize c =
     (let n = (of_char c :: nat) in
      if 97 \<le> n \<and> n \<le> 122 then char_of (n - 32) else c)"

definition ci_eq :: "string \<Rightarrow> string \<Rightarrow> bool" where
  "ci_eq s t = (map canonicalize s = map canonicalize t)"

text \<open>
  The UTF-8 encoding of a string, which is what \<^verbatim>\<open>hash.update(string)\<close> and
  \<^verbatim>\<open>transformToByteArray\<close> of a text body see.
\<close>

definition utf8_char :: "char \<Rightarrow> bytes" where
  "utf8_char c =
     (let n = (of_char c :: nat) in
      if n < 128 then [of_nat n]
      else [of_nat (192 + n div 64), of_nat (128 + n mod 64)])"

definition utf8_encode :: "string \<Rightarrow> bytes" where
  "utf8_encode s = concat (map utf8_char s)"

subsection \<open>SHA-256 (\<^verbatim>\<open>createHash('sha256')\<close>)\<close>

definition Ch :: "word32 \<Rightarrow> word32 \<Rightarrow> word32 \<Rightarrow> word32" where
  "Ch x y z = (x AND y) XOR (NOT x AND z)"

definition Maj :: "word32 \<Rightarrow> word32 \<Rightarrow> word32 \<Rightarrow> word32" where
  "Maj x y z = (x AND y) XOR (x AND z) XOR (y AND z)"

definition Sigma0 :: "word32 \<Rightarrow> word32" where
  "Sigma0 x = word_rotr 2 x XOR word_rotr 13 x XOR word_rotr 22 x"

definition Sigma1 :: "word32 \<Rightarrow> word32" where
  "Sigma1 x = word_rotr 6 x XOR word_rotr 11 x XOR word_rotr 25 x"

definition sigma0 :: "word32 \<Rightarrow> word32" where
  "sigma0 x = word_rotr 7 x XOR word_rotr 18 x XOR drop_bit 3 x"

definition sigma1 :: "word32 \<Rightarrow> word32" where
  "sigma1 x = word_rotr 17 x XOR word_rotr 19 x XOR drop_bit 10 x"

text \<open>The 64 round constants and the initial hash value, in decimal.\<close>

definition K256 :: "word32 list" where
  "K256 =
    [1116352408, 1899447441, 3049323471, 3921009573, 961987163, 1508970993, 2453635748, 2870763221,
     3624381080, 310598401, 607225278, 1426881987, 1925078388, 2162078206, 2614888103, 3248222580,
     3835390401, 4022224774, 264347078, 604807628, 770255983, 1249150122, 1555081692, 1996064986,
     2554220882, 2821834349, 2952996808, 3210313671, 3336571891, 3584528711, 113926993, 338241895,
     666307205, 773529912, 1294757372, 1396182291, 1695183700, 1986661051, 2177026350, 2456956037,
     2730485921, 2820302411, 3259730800, 3345764771, 3516065817, 3600352804, 4094571909, 275423344,
     430227734, 506948616, 659060556, 883997877, 958139571, 1322822218, 1537002063, 1747873779,
     1955562222, 2024104815, 2227730452, 2361852424, 2428436474, 2756734187, 3204031479, 3329325298]"

record sha_state =
  ha :: word32
  hb :: word32
  hc :: word32
  hd' :: word32
  he :: word32
  hf :: word32
  hg :: word32
  hh :: word32

definition H256 :: sha_state where
  "H256 = \<lparr>ha = 1779033703, hb = 3144134277, hc = 1013904242, hd' = 2773480762,
            he = 1359893119, hf = 2600822924, hg = 528734635, hh = 1541459225\<rparr>"

text \<open>Padding: a 1 bit, zeros up to 56 modulo 64 bytes, the bit length on 8 bytes.\<close>

definition be_bytes :: "nat \<Rightarrow> nat \<Rightarrow> bytes" where
  "be_bytes k n = map (\<lambda>i. of_nat (n div 256 ^ i)) (rev [0..<k])"

definition sha_pad :: "bytes \<Rightarrow> bytes" where
  "sha_pad m =
     m @ [0x80] @ replicate ((119 - length m mod 64) mod 64) 0 @ be_bytes 8 (8 * length m)"

definition be_word32 :: "bytes \<Rightarrow> word32" where
  "be_word32 bs = foldl (\<lambda>w b. push_bit 8 w OR ucast b) 0 bs"

fun words_of :: "nat \<Rightarrow> bytes \<Rightarrow> word32 list" where
  "words_of 0 bs = []"
| "words_of (Suc n) bs = be_word32 (take 4 bs) # words_of n (drop 4 bs)"

fun schedule :: "nat \<Rightarrow> word32 list \<Rightarrow> word32 list" where
  "schedule 0 w = w"
| "schedule (Suc k) w =
     (let n = length w in
      schedule k (w @ [sigma1 (w ! (n - 2)) + w ! (n - 7) + sigma0 (w ! (n - 15)) + w ! (n - 16)]))"

definition sha_round :: "sha_state \<Rightarrow> word32 \<times> word32 \<Rightarrow> sha_state" where
  "sha_round s kw =
     (let t1 = hh s + Sigma1 (he s) + Ch (he s) (hf s) (hg s) + fst kw + snd kw;
          t2 = Sigma0 (ha s) + Maj (ha s) (hb s) (hc s)
      in \<lparr>ha = t1 + t2, hb = ha s, hc = hb s, hd' = hc s,
          he = hd' s + t1, hf = he s, hg = hf s, hh = hg s\<rparr>)"

definition sha_compress :: "sha_state \<Rightarrow> bytes \<Rightarrow> sha_state" where
  "sha_compress s block =
     (let w = schedule 48 (words_of 16 block);
          r = foldl sha_round s (zip K256 w)
      in \<lparr>ha = ha s + ha r, hb = hb s + hb r, hc = hc s + hc r, hd' = hd' s + hd' r,
          he = he s + he r, hf = hf s + hf r, hg = hg s + hg r, hh = hh s + hh r\<rparr>)"

fun sha_blocks :: "nat \<Rightarrow> sha_state \<Rightarrow> bytes \<Rightarrow> sha_state" where
  "sha_blocks 0 s bs = s"
| "sha_blocks (Suc n) s bs = sha_blocks n (sha_compress s (take 64 bs)) (drop 64 bs)"

definition sha256 :: "bytes \<Rightarrow> sha_state" where
  "sha256 m = (let p = sha_pad m in sha_blocks (length p div 64) H256 p)"

text \<open>\<^verbatim>\<open>digest('hex')\<close>: 64 lower-case hexadecimal digits.\<close>

definition hex_digit :: "nat \<Rightarrow> char" where
  "hex_digit n = (if n < 10 then char_of (48 + n) else char_of (87 + n))"

definition hex_word32 :: "word32 \<Rightarrow> string" where
  "hex_word32 w = map (\<lambda>i. hex_digit (unat (drop_bit (4 * i) w AND 0xF))) [7, 6, 5, 4, 3, 2, 1, 0]"

definition sha256_hex :: "bytes \<Rightarrow> string" where
  "sha256_hex m =
     (let s = sha256 m in
      concat (map hex_word32 [ha s, hb s, hc s, hd' s, he s, hf s, hg s, hh s]))"

section \<open>Identity derivation and key layout\<close>

text \<open>\<^verbatim>\<open>getUserIdFromApiKey\<close> (r2.ts:49): the empty string is falsy.\<close>

definition getUserIdFromApiKey :: "string \<Rightarrow> string" where
  "getUserIdFromApiKey apiKey =
     (if apiKey = [] then ''anonymous''
      else (let hash = sha256_hex (utf8_encode apiKey) in take 16 hash))"

definition getHistoryFileKey :: "string \<Rightarrow> string" where
  "getHistoryFileKey userId = ''history/'' @ userId @ ''/history.json''"

definition getInputImageKey :: "string \<Rightarrow> string \<Rightarrow> string \<Rightarrow> string" where
  "getInputImageKey userId imageHash ext = ''inputs/'' @ userId @ ''/'' @ imageHash @ ''.'' @ ext"

text \<open>
  \<^verbatim>\<open>imageKey.replace(/\.jpg$/i, '_thumb.jpg')\<close> (r2.ts:83): without the \<^verbatim>\<open>m\<close> flag
  \<^verbatim>\<open>$\<close> is the end of the string, so only a final \<^verbatim>\<open>.jpg\<close> (in any case) is replaced.
\<close>

definition getThumbnailKeyFromImageKey :: "string \<Rightarrow> string" where
  "getThumbnailKeyFromImageKey imageKey =
     (let n = length imageKey in
      if 4 \<le> n \<and> ci_eq (drop (n - 4) imageKey) ''.jpg''
      then take (n - 4) imageKey @ ''_thumb.jpg''
      else imageKey)"

section \<open>JSON: \<^verbatim>\<open>JSON.stringify(value, null, 2)\<close> and \<^verbatim>\<open>JSON.parse\<close>\<close>

abbreviation (input) DQ :: char where "DQ \<equiv> CHR 0x22"
abbreviation (input) BSL :: char where "BSL \<equiv> CHR 0x5C"
abbreviation (input) LF :: char where "LF \<equiv> CHR 0x0A"

datatype json =
    JNull
  | JBool bool
  | JNumber int
  | JString string
  | JArray "json list"
  | JObject "(string \<times> json) list"

text \<open>
  A JSON value. A number is an integer: the history document has no other numbers.

  The outcome of parsing: \<open>SyntaxError\<close> is the exception that \<^verbatim>\<open>JSON.parse\<close> throws and
  \<open>Parsed\<close> its result. \<open>Unmodelled\<close> stands for a text that \<^verbatim>\<open>JSON.parse\<close> may accept
  but whose value these types cannot hold: a number with a fraction or an exponent, an
  integer that is not a safe integer (it would be rounded), an escape \<^verbatim>\<open>\uXXXX\<close> of a
  code unit of 256 or more. \<open>OutOfFuel\<close> is for the recursion bound of the parser; it is
  shown below never to be the outcome of \<open>JSON_parse\<close>.
\<close>

datatype 'a parsed = SyntaxError | Unmodelled | OutOfFuel | Parsed 'a

fun bindP :: "'a parsed \<Rightarrow> ('a \<Rightarrow> 'b parsed) \<Rightarrow> 'b parsed" where
  "bindP SyntaxError f = SyntaxError"
| "bindP Unmodelled f = Unmodelled"
| "bindP OutOfFuel f = OutOfFuel"
| "bindP (Parsed a) f = f a"

text \<open>\<^verbatim>\<open>QuoteJSONString\<close> of ECMAScript, for code units below 256.\<close>

definition quote_char :: "char \<Rightarrow> string" where
  "quote_char c =
     (let n = (of_char c :: nat) in
      if n = 8 then [BSL, CHR ''b'']
      else if n = 9 then [BSL, CHR ''t'']
      else if n = 10 then [BSL, CHR ''n'']
      else if n = 12 then [BSL, CHR ''f'']
      else if n = 13 then [BSL, CHR ''r'']
      else if n = 34 then [BSL, DQ]
      else if n = 92 then [BSL, BSL]
      else if n < 32 then [BSL, CHR ''u'', CHR ''0'', CHR ''0'', hex_digit (n div 16), hex_digit (n mod 16)]
      else [c])"

definition QuoteJSONString :: "string \<Rightarrow> string" where
  "QuoteJSONString s = DQ # concat (map quote_char s) @ [DQ]"

text \<open>
  \<^verbatim>\<open>Number::toString\<close> of an integer: its decimal digits (exact for the safe integers).
\<close>

fun digits_of :: "nat \<Rightarrow> string" where
  "digits_of n = (if n < 10 then [char_of (48 + n)] else digits_of (n div 10) @ [char_of (48 + n mod 10)])"

declare digits_of.simps [simp del]

definition Number_toString :: "int \<Rightarrow> string" where
  "Number_toString n = (if n < 0 then CHR ''-'' # digits_of (nat (- n)) else digits_of (nat n))"

definition spaces :: "nat \<Rightarrow> string" where
  "spaces n = replicate n CHR '' ''"

text \<open>
  \<^verbatim>\<open>SerializeJSONProperty\<close>, \<^verbatim>\<open>SerializeJSONArray\<close> and \<^verbatim>\<open>SerializeJSONObject\<close> with a
  gap of two spaces; the first argument is the current indentation.
\<close>

fun SerializeJSONProperty :: "nat \<Rightarrow> json \<Rightarrow> string"
  and SerializeJSONArray :: "nat \<Rightarrow> json list \<Rightarrow> string"
  and SerializeJSONObject :: "nat \<Rightarrow> (string \<times> json) list \<Rightarrow> string" where
  "SerializeJSONProperty i JNull = ''null''"
| "SerializeJSONProperty i (JBool b) = (if b then ''true'' else ''false'')"
| "SerializeJSONProperty i (JNumber n) = Number_toString n"
| "SerializeJSONProperty i (JString s) = QuoteJSONString s"
| "SerializeJSONProperty i (JArray xs) =
     (if xs = [] then ''[]''
      else ''['' @ LF # spaces (i + 2) @ SerializeJSONArray (i + 2) xs @ LF # spaces i @ '']'')"
| "SerializeJSONProperty i (JObject ms) =
     (if ms = [] then ''{}''
      else ''{'' @ LF # spaces (i + 2) @ SerializeJSONObject (i + 2) ms @ LF # spaces i @ ''}'')"
| "SerializeJSONArray i [] = []"
| "SerializeJSONArray i (x # xs) =
     SerializeJSONProperty i x @
     (if xs = [] then [] else '','' @ LF # spaces i @ SerializeJSONArray i xs)"
| "SerializeJSONObject i [] = []"
| "SerializeJSONObject i (m # ms) =
     QuoteJSONString (fst m) @ '': '' @ SerializeJSONProperty i (snd m) @
     (if ms = [] then [] else '','' @ LF # spaces i @ SerializeJSONObject i ms)"

definition JSON_stringify :: "json \<Rightarrow> string" where
  "JSON_stringify v = SerializeJSONProperty 0 v"

text \<open>
  \<^verbatim>\<open>JSON.parse\<close>: the JSON grammar, read by recursive descent. Each function returns the
  value read and the rest of the text.
\<close>

definition is_ws :: "char \<Rightarrow> bool" where
  "is_ws c = (c = CHR '' '' \<or> c = CHR 0x09 \<or> c = CHR 0x0A \<or> c = CHR 0x0D)"

definition skip_ws :: "string \<Rightarrow> string" where
  "skip_ws s = dropWhile is_ws s"

definition is_digit :: "char \<Rightarrow> bool" where
  "is_digit c = (48 \<le> (of_char c :: nat) \<and> (of_char c :: nat) \<le> 57)"

definition hex_val :: "char \<Rightarrow> nat option" where
  "hex_val c =
     (let n = (of_char c :: nat) in
      if 48 \<le> n \<and> n \<le> 57 then Some (n - 48)
      else if 97 \<le> n \<and> n \<le> 102 then Some (n - 87)
      else if 65 \<le> n \<and> n \<le> 70 then Some (n - 55)
      else None)"

definition hex4 :: "char \<Rightarrow> char \<Rightarrow> char \<Rightarrow> char \<Rightarrow> nat option" where
  "hex4 a b c d =
     (case (hex_val a, hex_val b, hex_val c, hex_val d) of
        (Some p, Some q, Some r, Some s) \<Rightarrow> Some (((p * 16 + q) * 16 + r) * 16 + s)
      | _ \<Rightarrow> None)"

definition unescape :: "char \<Rightarrow> char option" where
  "unescape e =
     (if e = DQ then Some DQ
      else if e = BSL then Some BSL
      else if e = CHR ''/'' then Some CHR ''/''
      else if e = CHR ''b'' then Some (CHR 0x08)
      else if e = CHR ''f'' then Some (CHR 0x0C)
      else if e = CHR ''n'' then Some (CHR 0x0A)
      else if e = CHR ''r'' then Some (CHR 0x0D)
      else if e = CHR ''t'' then Some (CHR 0x09)
      else None)"

text \<open>The characters of a string literal, after its opening quote.\<close>

definition consP :: "char \<Rightarrow> (string \<times> string) parsed \<Rightarrow> (string \<times> string) parsed" where
  "consP c p = bindP p (\<lambda>(s, r). Parsed (c # s, r))"

fun parse_chars :: "string \<Rightarrow> (string \<times> string) parsed" where
  "parse_chars [] = SyntaxError"
| "parse_chars (c # cs) =
     (if c = DQ then Parsed ([], cs)
      else if c = BSL then
        (case cs of
           [] \<Rightarrow> SyntaxError
         | e # r \<Rightarrow>
             if e = CHR ''u'' then
               (case r of
                  h1 # h2 # h3 # h4 # r' \<Rightarrow>
                    (case hex4 h1 h2 h3 h4 of
                       None \<Rightarrow> SyntaxError
                     | Some n \<Rightarrow> if n < 256 then consP (char_of n) (parse_chars r') else Unmodelled)
                | _ \<Rightarrow> SyntaxError)
             else (case unescape e of
                     None \<Rightarrow> SyntaxError
                   | Some ch \<Rightarrow> consP ch (parse_chars r)))
      else if (of_char c :: nat) < 32 then SyntaxError
      else consP c (parse_chars cs))"

text \<open>
  A number: an optional minus sign, then \<^verbatim>\<open>0\<close> or a run of digits. \<^verbatim>\<open>Number.isSafeInteger\<close>
  bounds the integers that a JavaScript number holds exactly.
\<close>

definition nat_of_digits :: "string \<Rightarrow> nat" where
  "nat_of_digits ds = foldl (\<lambda>a c. 10 * a + (of_char c - 48)) 0 ds"

definition isSafeInteger :: "int \<Rightarrow> bool" where
  "isSafeInteger n = (\<bar>n\<bar> \<le> 9007199254740991)"

definition int_part :: "string \<Rightarrow> string" where
  "int_part s = (if s \<noteq> [] \<and> hd s = CHR ''0'' then ''0'' else takeWhile is_digit s)"

definition parse_number :: "string \<Rightarrow> (json \<times> string) parsed" where
  "parse_number s =
     (let neg = (s \<noteq> [] \<and> hd s = CHR ''-'');
          s1 = (if neg then tl s else s);
          ds = int_part s1;
          rest = drop (length ds) s1
      in if ds = [] then SyntaxError
         else if rest \<noteq> [] \<and> (hd rest = CHR ''.'' \<or> hd rest = CHR ''e'' \<or> hd rest = CHR ''E'')
           then Unmodelled
         else (let n = int (nat_of_digits ds); v = (if neg then - n else n)
               in if isSafeInteger v then Parsed (JNumber v, rest) else Unmodelled))"

definition parse_literal :: "string \<Rightarrow> (json \<times> string) parsed" where
  "parse_literal s =
     (if take 4 s = ''true'' then Parsed (JBool True, drop 4 s)
      else if take 5 s = ''false'' then Parsed (JBool False, drop 5 s)
      else if take 4 s = ''null'' then Parsed (JNull, drop 4 s)
      else SyntaxError)"

text \<open>
  A value, the elements of an array after its first bracket, the members of an object after
  its first brace. The first argument bounds the depth of the recursion.
\<close>

fun parse_value :: "nat \<Rightarrow> string \<Rightarrow> (json \<times> string) parsed"
  and parse_elements :: "nat \<Rightarrow> string \<Rightarrow> (json list \<times> string) parsed"
  and parse_members :: "nat \<Rightarrow> string \<Rightarrow> ((string \<times> json) list \<times> string) parsed" where
  "parse_value 0 s = OutOfFuel"
| "parse_value (Suc n) s =
     (case s of
        [] \<Rightarrow> SyntaxError
      | c # cs \<Rightarrow>
          if c = CHR ''['' then
            (case skip_ws cs of
               [] \<Rightarrow> SyntaxError
             | d # r \<Rightarrow>
                 if d = CHR '']'' then Parsed (JArray [], r)
                 else bindP (parse_elements n (d # r)) (\<lambda>(xs, r'). Parsed (JArray xs, r')))
          else if c = CHR ''{'' then
            (case skip_ws cs of
               [] \<Rightarrow> SyntaxError
             | d # r \<Rightarrow>
                 if d = CHR ''}'' then Parsed (JObject [], r)
                 else bindP (parse_members n (d # r)) (\<lambda>(ms, r'). Parsed (JObject ms, r')))
          else if c = DQ then bindP (parse_chars cs) (\<lambda>(str, r). Parsed (JString str, r))
          else if c = CHR ''t'' \<or> c = CHR ''f'' \<or> c = CHR ''n'' then parse_literal s
          else parse_number s)"
| "parse_elements 0 s = OutOfFuel"
| "parse_elements (Suc n) s =
     bindP (parse_value n s) (\<lambda>(x, r).
       case skip_ws r of
         [] \<Rightarrow> SyntaxError
       | d # r' \<Rightarrow>
           if d = CHR '','' then
             bindP (parse_elements n (skip_ws r')) (\<lambda>(xs, r''). Parsed (x # xs, r''))
           else if d = CHR '']'' then Parsed ([x], r')
           else SyntaxError)"
| "parse_members 0 s = OutOfFuel"
| "parse_members (Suc n) s =
     (case s of
        [] \<Rightarrow> SyntaxError
      | c # cs \<Rightarrow>
          if c \<noteq> DQ then SyntaxError
          else bindP (parse_chars cs) (\<lambda>(k, r).
            case skip_ws r of
              [] \<Rightarrow> SyntaxError
            | d # r1 \<Rightarrow>
                if d \<noteq> CHR '':'' then SyntaxError
                else bindP (parse_value n (skip_ws r1)) (\<lambda>(v, r2).
                  case skip_ws r2 of
                    [] \<Rightarrow> SyntaxError
                  | d2 # r3 \<Rightarrow>
                      if d2 = CHR '','' then
                        bindP (parse_members n (skip_ws r3)) (\<lambda>(ms, r4). Parsed ((k, v) # ms, r4))
                      else if d2 = CHR ''}'' then Parsed ([(k, v)], r3)
                      else SyntaxError)))"

definition JSON_parse :: "string \<Rightarrow> json parsed" where
  "JSON_parse s =
     bindP (parse_value (Suc (2 * length s)) (skip_ws s))
       (\<lambda>(v, r). if skip_ws r = [] then Parsed v else SyntaxError)"

text \<open>The values whose numbers are all safe integers: those that are read back.\<close>

fun representable :: "json \<Rightarrow> bool"
  and representable_list :: "json list \<Rightarrow> bool"
  and representable_members :: "(string \<times> json) list \<Rightarrow> bool" where
  "representable JNull = True"
| "representable (JBool b) = True"
| "representable (JNumber n) = isSafeInteger n"
| "representable (JString s) = True"
| "representable (JArray xs) = representable_list xs"
| "representable (JObject ms) = representable_members ms"
| "representable_list [] = True"
| "representable_list (x # xs) = (representable x \<and> representable_list xs)"
| "representable_members [] = True"
| "representable_members (m # ms) = (representable (snd m) \<and> representable_members ms)"

section \<open>History items and the history document\<close>

text \<open>
  \<^verbatim>\<open>interface HistoryItem\<close> (r2.ts:26). An optional property is \<open>None\<close> when it is
  absent or \<^verbatim>\<open>undefined\<close>. \<open>timestamp\<close> is an integer number of milliseconds.
\<close>

datatype Mode = text2img | img2img | outpaint

record HistoryItem =
  id' :: string
  timestamp :: int
  prompt :: string
  mode :: Mode
  model :: string
  imageKey :: string
  aspectRatio :: "string option"
  inputImageKey :: "string option"
  inputImageHash :: "string option"
  inputImageKeys :: "string list option"
  inputImageHashes :: "string list option"

fun Mode_string :: "Mode \<Rightarrow> string" where
  "Mode_string text2img = ''text2img''"
| "Mode_string img2img = ''img2img''"
| "Mode_string outpaint = ''outpaint''"

text \<open>
  The object that \<^verbatim>\<open>JSON.stringify\<close> sees: the properties in the order in which the
  item literal lists them (route.ts, POST), an undefined property left out.
\<close>

fun property :: "string \<Rightarrow> json option \<Rightarrow> (string \<times> json) list" where
  "property k None = []"
| "property k (Some v) = [(k, v)]"

definition JStrings :: "string list \<Rightarrow> json" where
  "JStrings ks = JArray (map JString ks)"

definition toJSON_item :: "HistoryItem \<Rightarrow> json" where
  "toJSON_item h = JObject (
     [(''id'', JString (id' h)),
      (''timestamp'', JNumber (timestamp h)),
      (''prompt'', JString (prompt h)),
      (''mode'', JString (Mode_string (mode h))),
      (''model'', JString (model h)),
      (''imageKey'', JString (imageKey h))] @
     property ''aspectRatio'' (map_option JString (aspectRatio h)) @
     property ''inputImageKey'' (map_option JString (inputImageKey h)) @
     property ''inputImageHash'' (map_option JString (inputImageHash h)) @
     property ''inputImageKeys'' (map_option JStrings (inputImageKeys h)) @
     property ''inputImageHashes'' (map_option JStrings (inputImageHashes h)))"

definition toJSON :: "HistoryItem list \<Rightarrow> json" where
  "toJSON history = JArray (map toJSON_item history)"

text \<open>
  \<^verbatim>\<open>return JSON.parse(bodyContents)\<close> (r2.ts:251) is an unchecked cast to
  \<^verbatim>\<open>HistoryItem[]\<close>. The model reads a parsed value as a list of items only when it has
  exactly the shape that \<open>toJSON\<close> produces; any other value is outside the model (\<open>None\<close>).
\<close>

fun as_string :: "json \<Rightarrow> string option" where
  "as_string (JString s) = Some s"
| "as_string _ = None"

fun as_number :: "json \<Rightarrow> int option" where
  "as_number (JNumber n) = Some n"
| "as_number _ = None"

definition as_Mode :: "json \<Rightarrow> Mode option" where
  "as_Mode v =
     (if v = JString ''text2img'' then Some text2img
      else if v = JString ''img2img'' then Some img2img
      else if v = JString ''outpaint'' then Some outpaint
      else None)"

fun as_strings :: "json \<Rightarrow> string list option" where
  "as_strings (JArray xs) = those (map as_string xs)"
| "as_strings _ = None"

type_synonym members = "(string \<times> json) list"

fun required :: "string \<Rightarrow> (json \<Rightarrow> 'a option) \<Rightarrow> members \<Rightarrow> ('a \<times> members) option" where
  "required k conv [] = None"
| "required k conv (m # ms) =
     (if fst m = k then map_option (\<lambda>a. (a, ms)) (conv (snd m)) else None)"

fun optional :: "string \<Rightarrow> (json \<Rightarrow> 'a option) \<Rightarrow> members \<Rightarrow> ('a option \<times> members) option" where
  "optional k conv [] = Some (None, [])"
| "optional k conv (m # ms) =
     (if fst m = k then map_option (\<lambda>a. (Some a, ms)) (conv (snd m)) else Some (None, m # ms))"

definition as_HistoryItem_members :: "members \<Rightarrow> HistoryItem option" where
  "as_HistoryItem_members ms0 =
     Option.bind (required ''id'' as_string ms0) (\<lambda>(v1, ms1).
     Option.bind (required ''timestamp'' as_number ms1) (\<lambda>(v2, ms2).
     Option.bind (required ''prompt'' as_string ms2) (\<lambda>(v3, ms3).
     Option.bind (required ''mode'' as_Mode ms3) (\<lambda>(v4, ms4).
     Option.bind (required ''model'' as_string ms4) (\<lambda>(v5, ms5).
     Option.bind (required ''imageKey'' as_string ms5) (\<lambda>(v6, ms6).
     Option.bind (optional ''aspectRatio'' as_string ms6) (\<lambda>(v7, ms7).
     Option.bind (optional ''inputImageKey'' as_string ms7) (\<lambda>(v8, ms8).
     Option.bind (optional ''inputImageHash'' as_string ms8) (\<lambda>(v9, ms9).
     Option.bind (optional ''inputImageKeys'' as_strings ms9) (\<lambda>(v10, ms10).
     Option.bind (optional ''inputImageHashes'' as_strings ms10) (\<lambda>(v11, ms11).
       if ms11 = []
       then Some \<lparr>id' = v1, timestamp = v2, prompt = v3, mode = v4, model = v5, imageKey = v6,
                  aspectRatio = v7, inputImageKey = v8, inputImageHash = v9,
                  inputImageKeys = v10, inputImageHashes = v11\<rparr>
       else None)))))))))))"

fun as_HistoryItem :: "json \<Rightarrow> HistoryItem option" where
  "as_HistoryItem (JObject ms) = as_HistoryItem_members ms"
| "as_HistoryItem _ = None"

fun as_History :: "json \<Rightarrow> HistoryItem list option" where
  "as_History (JArray xs) = those (map as_HistoryItem xs)"
| "as_History _ = None"

section \<open>The object store behind \<^verbatim>\<open>s3Client.send\<close>\<close>

text \<open>
  A body is either the bytes of a \<^verbatim>\<open>Buffer\<close> or a string (stored as its UTF-8
  encoding).
\<close>

datatype body = Bytes bytes | Text string

record s3_object =
  Body :: body
  ContentType :: string

datatype command =
    PutObject string body string
  | GetObject string
  | DeleteObject string
  | HeadObject string

datatype s3_error = NoSuchKey | NotFound | ServiceFailure

datatype s3_output =
    PutObjectOutput
  | GetObjectOutput s3_object
  | DeleteObjectOutput
  | HeadObjectOutput

text \<open>
  What happens to one request: it is served; or it never reaches the store; or the store
  applies it and the answer is lost. In the last two cases the client throws.
\<close>

datatype fate = Served | Dropped | Unacknowledged

text \<open>
  The store: the objects of the bucket, the requests sent so far (oldest first), and the
  fate of the request sent as number \<open>n\<close>, for every \<open>n\<close>.
\<close>

record r2 =
  objects :: "string \<rightharpoonup> s3_object"
  sent :: "command list"
  fates :: "nat \<Rightarrow> fate"

fun effect :: "command \<Rightarrow> (string \<rightharpoonup> s3_object) \<Rightarrow> (string \<rightharpoonup> s3_object)" where
  "effect (PutObject k b ct) os = os(k \<mapsto> \<lparr>Body = b, ContentType = ct\<rparr>)"
| "effect (DeleteObject k) os = os(k := None)"
| "effect (GetObject k) os = os"
| "effect (HeadObject k) os = os"

fun respond :: "command \<Rightarrow> (string \<rightharpoonup> s3_object) \<Rightarrow> s3_error + s3_output" where
  "respond (PutObject k b ct) os = Inr PutObjectOutput"
| "respond (DeleteObject k) os = Inr DeleteObjectOutput"
| "respond (GetObject k) os =
     (case os k of None \<Rightarrow> Inl NoSuchKey | Some obj \<Rightarrow> Inr (GetObjectOutput obj))"
| "respond (HeadObject k) os =
     (case os k of None \<Rightarrow> Inl NotFound | Some obj \<Rightarrow> Inr HeadObjectOutput)"

definition send :: "r2 \<Rightarrow> command \<Rightarrow> (s3_error + s3_output) \<times> r2" where
  "send s cmd =
     (let s' = s\<lparr>sent := sent s @ [cmd]\<rparr> in
      case fates s (length (sent s)) of
        Served \<Rightarrow> (respond cmd (objects s), s'\<lparr>objects := effect cmd (objects s)\<rparr>)
      | Dropped \<Rightarrow> (Inl ServiceFailure, s')
      | Unacknowledged \<Rightarrow> (Inl ServiceFailure, s'\<lparr>objects := effect cmd (objects s)\<rparr>))"

fun transformToByteArray :: "body \<Rightarrow> bytes" where
  "transformToByteArray (Bytes b) = b"
| "transformToByteArray (Text t) = utf8_encode t"

section \<open>\<^verbatim>\<open>src/lib/r2.ts\<close>\<close>

text \<open>\<^verbatim>\<open>doesObjectExist\<close> (r2.ts:113): both branches of the \<^verbatim>\<open>catch\<close> return false.\<close>

definition doesObjectExist :: "r2 \<Rightarrow> string \<Rightarrow> bool \<times> r2" where
  "doesObjectExist s key =
     (case send s (HeadObject key) of
        (Inr out, s') \<Rightarrow> (True, s')
      | (Inl error, s') \<Rightarrow> if error = NotFound then (False, s') else (False, s'))"

text \<open>\<^verbatim>\<open>getImage\<close> (r2.ts:204): \<open>None\<close> is \<^verbatim>\<open>null\<close>.\<close>

definition getImage :: "r2 \<Rightarrow> string \<Rightarrow> bytes option \<times> r2" where
  "getImage s imageKey' =
     (case send s (GetObject imageKey') of
        (Inr (GetObjectOutput obj), s') \<Rightarrow> (Some (transformToByteArray (Body obj)), s')
      | (Inr out, s') \<Rightarrow> (None, s')
      | (Inl error, s') \<Rightarrow> (None, s'))"

text \<open>\<^verbatim>\<open>deleteImage\<close> (r2.ts:225): the \<^verbatim>\<open>catch\<close> turns every error into false.\<close>

definition deleteImage :: "r2 \<Rightarrow> string \<Rightarrow> bool \<times> r2" where
  "deleteImage s imageKey' =
     (case send s (DeleteObject imageKey') of
        (Inr out, s') \<Rightarrow> (True, s')
      | (Inl error, s') \<Rightarrow> (False, s'))"

text \<open>
  \<^verbatim>\<open>loadHistory\<close> (r2.ts:241). A \<^verbatim>\<open>SyntaxError\<close> of \<^verbatim>\<open>JSON.parse\<close> is caught like
  every other error and gives the empty list. The result is \<open>None\<close> when the document is
  outside the model (see \<open>as_History\<close> and \<open>Unmodelled\<close>).
\<close>

definition loadHistory :: "r2 \<Rightarrow> string \<Rightarrow> HistoryItem list option \<times> r2" where
  "loadHistory s userId =
     (let historyFileKey = getHistoryFileKey userId in
      case send s (GetObject historyFileKey) of
        (Inr (GetObjectOutput obj), s') \<Rightarrow>
          (case Body obj of
             Text bodyContents \<Rightarrow>
               (case JSON_parse bodyContents of
                  Parsed v \<Rightarrow> (as_History v, s')
                | SyntaxError \<Rightarrow> (Some [], s')
                | Unmodelled \<Rightarrow> (None, s')
                | OutOfFuel \<Rightarrow> (None, s'))
           | Bytes b \<Rightarrow> (None, s'))
      | (Inr out, s') \<Rightarrow> (Some [], s')
      | (Inl error, s') \<Rightarrow> if error = NoSuchKey then (Some [], s') else (Some [], s'))"

text \<open>\<^verbatim>\<open>saveHistory\<close> (r2.ts:267).\<close>

definition saveHistory :: "r2 \<Rightarrow> string \<Rightarrow> HistoryItem list \<Rightarrow> bool \<times> r2" where
  "saveHistory s userId history =
     (let historyFileKey = getHistoryFileKey userId in
      case send s (PutObject historyFileKey (Text (JSON_stringify (toJSON history))) ''application/json'') of
        (Inr out, s') \<Rightarrow> (True, s')
      | (Inl error, s') \<Rightarrow> (False, s'))"

text \<open>
  \<^verbatim>\<open>addHistoryItem\<close> (r2.ts:286): \<^verbatim>\<open>unshift\<close>, then \<^verbatim>\<open>slice(0, 100)\<close>. Nothing in the
  \<^verbatim>\<open>try\<close> block throws, since \<open>loadHistory\<close> and \<open>saveHistory\<close> catch their own errors.
\<close>

definition addHistoryItem :: "r2 \<Rightarrow> string \<Rightarrow> HistoryItem \<Rightarrow> (bool \<times> r2) option" where
  "addHistoryItem s userId item =
     (case loadHistory s userId of
        (None, s1) \<Rightarrow> None
      | (Some history, s1) \<Rightarrow>
          (let history' = item # history;
               trimmedHistory = take 100 history'
           in Some (saveHistory s1 userId trimmedHistory)))"

text \<open>
  \<^verbatim>\<open>deleteHistoryItem\<close> (r2.ts:303). \<^verbatim>\<open>if (item.inputImageKey)\<close> is false for an absent
  property and for the empty string.
\<close>

definition deleteHistoryItem :: "r2 \<Rightarrow> string \<Rightarrow> string \<Rightarrow> (bool \<times> r2) option" where
  "deleteHistoryItem s userId i =
     (case loadHistory s userId of
        (None, s1) \<Rightarrow> None
      | (Some history, s1) \<Rightarrow>
          (case find (\<lambda>h. id' h = i) history of
             Some item \<Rightarrow>
               (let s2 = snd (deleteImage s1 (imageKey item));
                    s3 = snd (deleteImage s2 (getThumbnailKeyFromImageKey (imageKey item)));
                    s4 = (case inputImageKey item of
                            Some k \<Rightarrow>
                              if k \<noteq> [] then
                                (let stillReferenced =
                                   list_ex (\<lambda>h. id' h \<noteq> i \<and> inputImageKey h = inputImageKey item) history
                                 in if \<not> stillReferenced then snd (deleteImage s3 k) else s3)
                              else s3
                          | None \<Rightarrow> s3);
                    newHistory = filter (\<lambda>h. id' h \<noteq> i) history
                in Some (saveHistory s4 userId newHistory))
           | None \<Rightarrow> Some (False, s1)))"

subsection \<open>Input images\<close>

text \<open>
  \<^verbatim>\<open>/^data:([^;]+);base64,/\<close>, with or without the \<^verbatim>\<open>i\<close> flag: the captured group is the longest
  run of characters other than \<^verbatim>\<open>;\<close>, since the next character has to be \<^verbatim>\<open>;\<close>. The result
  is the captured group and what follows the match.
\<close>

definition match_data_prefix :: "bool \<Rightarrow> string \<Rightarrow> (string \<times> string) option" where
  "match_data_prefix ignoreCase s =
     (let same = (\<lambda>a b. if ignoreCase then ci_eq a b else a = b);
          rest = drop 5 s;
          captured = takeWhile (\<lambda>c. c \<noteq> CHR '';'') rest;
          remainder = drop (length captured) rest
      in if same (take 5 s) ''data:'' \<and> captured \<noteq> [] \<and> same (take 8 remainder) '';base64,''
         then Some (captured, drop 8 remainder) else None)"

text \<open>
  \<^verbatim>\<open>Buffer.from(text, 'base64')\<close>: both alphabets are accepted, a character outside them is
  skipped, decoding stops at the first \<^verbatim>\<open>=\<close>, and a final captured of two or three
  characters gives one or two bytes.
\<close>

definition base64_value :: "char \<Rightarrow> nat option" where
  "base64_value c =
     (let n = (of_char c :: nat) in
      if 65 \<le> n \<and> n \<le> 90 then Some (n - 65)
      else if 97 \<le> n \<and> n \<le> 122 then Some (n - 71)
      else if 48 \<le> n \<and> n \<le> 57 then Some (n + 4)
      else if c = CHR ''+'' \<or> c = CHR ''-'' then Some 62
      else if c = CHR ''/'' \<or> c = CHR ''_'' then Some 63
      else None)"

fun base64_bytes :: "nat list \<Rightarrow> bytes" where
  "base64_bytes (a # b # c # d # r) =
     [of_nat (a * 4 + b div 16), of_nat (b mod 16 * 16 + c div 4), of_nat (c mod 4 * 64 + d)]
       @ base64_bytes r"
| "base64_bytes [a, b, c] = [of_nat (a * 4 + b div 16), of_nat (b mod 16 * 16 + c div 4)]"
| "base64_bytes [a, b] = [of_nat (a * 4 + b div 16)]"
| "base64_bytes r = []"

definition Buffer_from_base64 :: "string \<Rightarrow> bytes" where
  "Buffer_from_base64 s =
     base64_bytes (List.map_filter base64_value (takeWhile (\<lambda>c. c \<noteq> CHR ''='') s))"

record ParsedImageData =
  buffer :: bytes
  mimeType :: string

text \<open>
  \<^verbatim>\<open>parseImageData\<close> (r2.ts:87): the first pattern ignores case, the second does not.
\<close>

definition parseImageData :: "string \<Rightarrow> string \<Rightarrow> ParsedImageData" where
  "parseImageData imageData fallbackMimeType =
     (let mimeMatch = match_data_prefix True imageData;
          mimeType' = (case mimeMatch of
                         Some (captured, remainder) \<Rightarrow> if captured \<noteq> [] then captured else fallbackMimeType
                       | None \<Rightarrow> fallbackMimeType);
          base64Data = (case match_data_prefix False imageData of
                          Some (captured, remainder) \<Rightarrow> remainder
                        | None \<Rightarrow> imageData)
      in \<lparr>buffer = Buffer_from_base64 base64Data, mimeType = mimeType'\<rparr>)"

definition getExtensionFromMimeType :: "string \<Rightarrow> string" where
  "getExtensionFromMimeType mimeType' =
     (let m = toLowerCase mimeType' in
      if m = ''image/png'' then ''png''
      else if m = ''image/webp'' then ''webp''
      else if m = ''image/gif'' then ''gif''
      else ''jpg'')"

record DedupResult =
  imageKey_of :: string
  imageHash_of :: string
  reused :: bool

text \<open>
  \<^verbatim>\<open>uploadInputImageWithDedup\<close> (r2.ts:335). The upload is not in a \<^verbatim>\<open>try\<close> block: an
  error of the \<^verbatim>\<open>PutObjectCommand\<close> is thrown to the caller (\<open>Inl\<close>).
\<close>

definition uploadInputImageWithDedup ::
    "r2 \<Rightarrow> string \<Rightarrow> string \<Rightarrow> string \<Rightarrow> (s3_error + DedupResult) \<times> r2" where
  "uploadInputImageWithDedup s imageData userId fallbackMimeType =
     (let parsed = parseImageData imageData fallbackMimeType;
          imageHash = sha256_hex (buffer parsed);
          ext = getExtensionFromMimeType (mimeType parsed);
          imageKey' = getInputImageKey userId imageHash ext;
          (exists, s1) = doesObjectExist s imageKey';
          result = \<lparr>imageKey_of = imageKey', imageHash_of = imageHash, reused = exists\<rparr>
      in if \<not> exists then
           (case send s1 (PutObject imageKey' (Bytes (buffer parsed)) (mimeType parsed)) of
              (Inl error, s2) \<Rightarrow> (Inl error, s2)
            | (Inr out, s2) \<Rightarrow> (Inr result, s2))
         else (Inr result, s1))"

section \<open>\<^verbatim>\<open>src/app/api/history/image/route.ts\<close>\<close>

text \<open>\<^verbatim>\<open>key.split('.')\<close>.\<close>

fun split_dot :: "string \<Rightarrow> string list" where
  "split_dot [] = [[]]"
| "split_dot (c # cs) =
     (if c = CHR ''.'' then [] # split_dot cs
      else (case split_dot cs of [] \<Rightarrow> [[c]] | x # xs \<Rightarrow> (c # x) # xs))"

definition pop :: "'a list \<Rightarrow> 'a option" where
  "pop xs = (if xs = [] then None else Some (last xs))"

text \<open>\<^verbatim>\<open>getContentTypeFromKey\<close> (route.ts:4).\<close>

definition getContentTypeFromKey :: "string \<Rightarrow> string" where
  "getContentTypeFromKey key =
     (let ext = map_option toLowerCase (pop (split_dot key)) in
      if ext = Some ''jpg'' \<or> ext = Some ''jpeg'' then ''image/jpeg''
      else if ext = Some ''webp'' then ''image/webp''
      else if ext = Some ''gif'' then ''image/gif''
      else ''image/png'')"

text \<open>The four environment variables read at r2.ts:9, and \<^verbatim>\<open>isR2Configured\<close> (r2.ts:132).\<close>

record config =
  R2_ACCOUNT_ID :: string
  R2_ACCESS_KEY_ID :: string
  R2_SECRET_ACCESS_KEY :: string
  R2_BUCKET_NAME :: string

definition isR2Configured :: "config \<Rightarrow> bool" where
  "isR2Configured c =
     (R2_ACCOUNT_ID c \<noteq> [] \<and> R2_ACCESS_KEY_ID c \<noteq> [] \<and> R2_SECRET_ACCESS_KEY c \<noteq> []
      \<and> R2_BUCKET_NAME c \<noteq> [])"

text \<open>
  A response: the status, the body (a JSON object with \<^verbatim>\<open>success\<close> and an error message,
  or raw bytes) and the headers. The messages are named, their texts are not modelled.
\<close>

datatype message = StorageNotConfigured | MissingImageKey | ImageNotFound

datatype payload = Json bool message | Raw bytes

record response =
  status :: nat
  payload_of :: payload
  headers :: "(string \<times> string) list"

definition NextResponse_json :: "bool \<Rightarrow> message \<Rightarrow> nat \<Rightarrow> response" where
  "NextResponse_json success error st =
     \<lparr>status = st, payload_of = Json success error,
      headers = [(''content-type'', ''application/json'')]\<rparr>"

text \<open>
  \<^verbatim>\<open>GET\<close> (route.ts:31). The request is its \<^verbatim>\<open>key\<close> query parameter, \<open>None\<close> when
  \<^verbatim>\<open>searchParams.get('key')\<close> is \<^verbatim>\<open>null\<close>. \<^verbatim>\<open>getImage\<close> catches its own errors, so the
  \<^verbatim>\<open>catch\<close> of the handler is not reached.
\<close>

definition GET :: "config \<Rightarrow> r2 \<Rightarrow> string option \<Rightarrow> response \<times> r2" where
  "GET c s key =
     (if \<not> isR2Configured c then (NextResponse_json False StorageNotConfigured 500, s)
      else case key of
        None \<Rightarrow> (NextResponse_json False MissingImageKey 400, s)
      | Some k \<Rightarrow>
          if k = [] then (NextResponse_json False MissingImageKey 400, s)
          else (case getImage s k of
                  (None, s') \<Rightarrow> (NextResponse_json False ImageNotFound 404, s')
                | (Some imageBuffer, s') \<Rightarrow>
                    (\<lparr>status = 200, payload_of = Raw imageBuffer,
                      headers = [(''Content-Type'', getContentTypeFromKey k),
                                 (''Cache-Control'', ''public, max-age=31536000, immutable'')]\<rparr>, s')))"

subsection \<open>The history route\<close>

text \<open>
  \<^verbatim>\<open>GET\<close> of the history route (the second route of the sources) lists, for every item, the
  URLs of \<^verbatim>\<open>item.inputImageKeys || (item.inputImageKey ? [item.inputImageKey] : [])\<close>:
  the keys of all reference images of the item. An array, even an empty one, is truthy.
\<close>

definition allInputKeys :: "HistoryItem \<Rightarrow> string list" where
  "allInputKeys item =
     (case inputImageKeys item of
        Some ks \<Rightarrow> ks
      | None \<Rightarrow>
          (case inputImageKey item of
             Some k \<Rightarrow> if k \<noteq> [] then [k] else []
           | None \<Rightarrow> []))"

section \<open>Auxiliary notions of the proofs\<close>

text \<open>Side conditions of the round-trip lemmas.\<close>

definition follow :: "string \<Rightarrow> bool" where
  "follow rest = (rest = [] \<or> (\<not> is_digit (hd rest) \<and> hd rest \<noteq> CHR ''.'' \<and> hd rest \<noteq> CHR ''e'' \<and> hd rest \<noteq> CHR ''E''))"

definition starter :: "char \<Rightarrow> bool" where
  "starter c = (\<not> is_ws c \<and> c \<noteq> CHR '']'' \<and> c \<noteq> CHR ''}'')"



text \<open>
  The requests that the reference-image step of \<open>deleteHistoryItem\<close> sends, and the eight
  spellings of a final \<^verbatim>\<open>.jpg\<close>.
\<close>

definition reference_cleanup :: "HistoryItem list \<Rightarrow> string \<Rightarrow> HistoryItem \<Rightarrow> command list" where
  "reference_cleanup history i item =
     (case inputImageKey item of
        None \<Rightarrow> []
      | Some k \<Rightarrow>
          if k = [] \<or> (\<exists>h\<in>set history. id' h \<noteq> i \<and> inputImageKey h = Some k) then []
          else [DeleteObject k])"

definition jpg_endings :: "string list" where
  "jpg_endings = [''.jpg'', ''.jpG'', ''.jPg'', ''.jPG'', ''.Jpg'', ''.JpG'', ''.JPg'', ''.JPG'']"

text \<open>Example items, stores and fates, used where a theorem is applied to a concrete input.\<close>

definition example_item :: "string \<Rightarrow> string option \<Rightarrow> HistoryItem" where
  "example_item i k =
     \<lparr>id' = i, timestamp = 1700000000000, prompt = ''a cat'', mode = img2img, model = ''m1'',
      imageKey = ''images/u1/'' @ i @ ''.jpg'', aspectRatio = None, inputImageKey = k,
      inputImageHash = None, inputImageKeys = map_option (\<lambda>x. [x]) k, inputImageHashes = None\<rparr>"

definition example_store :: "HistoryItem list \<Rightarrow> (nat \<Rightarrow> fate) \<Rightarrow> r2" where
  "example_store history f =
     \<lparr>objects = [getHistoryFileKey ''u1'' \<mapsto>
        \<lparr>Body = Text (JSON_stringify (toJSON history)), ContentType = ''application/json''\<rparr>],
      sent = [], fates = f\<rparr>"

definition deletes_dropped :: "nat \<Rightarrow> fate" where
  "deletes_dropped n = (if n = 1 \<or> n = 2 \<or> n = 3 then Dropped else Served)"

text \<open>
  An item as \<^verbatim>\<open>POST\<close> of the history route writes it for the keys and hashes that the
  uploads of its reference images returned: \<^verbatim>\<open>inputImageKey: inputImageKeys[0]\<close> and
  \<^verbatim>\<open>inputImageKeys: inputImageKeys.length > 0 ? inputImageKeys : undefined\<close>, likewise for
  the hashes. And a store that holds the history document of user \<open>u1\<close> and a blob at each
  of the given keys, every request served.
\<close>

definition posted_item :: "string \<Rightarrow> string list \<Rightarrow> string list \<Rightarrow> HistoryItem" where
  "posted_item i keys hashes =
     \<lparr>id' = i, timestamp = 1700000000000, prompt = ''a cat'', mode = img2img, model = ''m1'',
      imageKey = ''images/u1/'' @ i @ ''.jpg'', aspectRatio = None,
      inputImageKey = (case keys of [] \<Rightarrow> None | k # ks \<Rightarrow> Some k),
      inputImageHash = (case hashes of [] \<Rightarrow> None | h # hs \<Rightarrow> Some h),
      inputImageKeys = (if keys \<noteq> [] then Some keys else None),
      inputImageHashes = (if hashes \<noteq> [] then Some hashes else None)\<rparr>"

definition stocked_store :: "HistoryItem list \<Rightarrow> string list \<Rightarrow> r2" where
  "stocked_store history keys =
     \<lparr>objects = (\<lambda>k. if k \<in> set keys
                      then Some \<lparr>Body = Bytes [1, 2, 3], ContentType = ''image/jpeg''\<rparr>
                      else objects (example_store history (\<lambda>n. Served)) k),
      sent = [], fates = (\<lambda>n. Served)\<rparr>"

text \<open>A client that awaits \<open>addHistoryItem\<close> for each item of a list in turn, and the example inputs of its theorem.\<close>

fun addHistoryItems :: "r2 \<Rightarrow> string \<Rightarrow> HistoryItem list \<Rightarrow> (bool list \<times> r2) option" where
  "addHistoryItems s userId [] = Some ([], s)"
| "addHistoryItems s userId (item # items) =
     (case addHistoryItem s userId item of
        None \<Rightarrow> None
      | Some (ok, s') \<Rightarrow>
          (case addHistoryItems s' userId items of
             None \<Rightarrow> None
           | Some (oks, s'') \<Rightarrow> Some (ok # oks, s'')))"

definition example_items :: "HistoryItem list" where
  "example_items = map (\<lambda>n. example_item (replicate n CHR ''x'') None) [0..<101]"

definition empty_store :: r2 where
  "empty_store = \<lparr>objects = Map.empty, sent = [], fates = (\<lambda>n. Served)\<rparr>"

text \<open>The key that \<open>uploadInputImageWithDedup\<close> computes before it touches the store (r2.ts:340-343), the content-type table as the specification words it, and example configurations and stores.\<close>

definition inputKey :: "string \<Rightarrow> string \<Rightarrow> string \<Rightarrow> string" where
  "inputKey imageData userId fallbackMimeType =
     (let parsed = parseImageData imageData fallbackMimeType
      in getInputImageKey userId (sha256_hex (buffer parsed))
           (getExtensionFromMimeType (mimeType parsed)))"

definition spec_content_type_table :: "string \<Rightarrow> string" where
  "spec_content_type_table ext =
     (if ext = ''jpg'' \<or> ext = ''jpeg'' then ''image/jpeg''
      else if ext = ''webp'' then ''image/webp''
      else if ext = ''gif'' then ''image/gif''
      else ''image/png'')"

definition example_config :: config where
  "example_config = \<lparr>R2_ACCOUNT_ID = ''acct'', R2_ACCESS_KEY_ID = ''id'',
     R2_SECRET_ACCESS_KEY = ''secret'', R2_BUCKET_NAME = ''bucket''\<rparr>"

definition image_store :: r2 where
  "image_store = \<lparr>objects = [''images/u1/abc.JPG'' \<mapsto> \<lparr>Body = Bytes [1, 2, 3], ContentType = ''image/jpeg''\<rparr>],
     sent = [], fates = (\<lambda>n. Served)\<rparr>"

definition unconfigured :: config where
  "unconfigured = \<lparr>R2_ACCOUNT_ID = [], R2_ACCESS_KEY_ID = [],
     R2_SECRET_ACCESS_KEY = [], R2_BUCKET_NAME = []\<rparr>"

section \<open>JSON round trip\<close>

lemma char_eq_nat: "(c = d) = ((of_char c :: nat) = of_char d)"
  by simp

lemma hex_val_hex_digit: "d < 16 \<Longrightarrow> hex_val (hex_digit d) = Some d"
  by (simp add: hex_val_def hex_digit_def Let_def)

lemma hex4_control: "n < 32 \<Longrightarrow> hex4 CHR ''0'' CHR ''0'' (hex_digit (n div 16)) (hex_digit (n mod 16)) = Some n"
proof -
  assume n: "n < 32"
  have a: "hex_val (hex_digit (n div 16)) = Some (n div 16)"
    using n by (intro hex_val_hex_digit) simp
  have b: "hex_val (hex_digit (n mod 16)) = Some (n mod 16)"
    by (intro hex_val_hex_digit) simp
  have z: "hex_val CHR ''0'' = Some 0"
    by (simp add: hex_val_def)
  show ?thesis
    by (simp add: hex4_def a b z)
qed

lemma parse_chars_quote_char:
  "parse_chars (quote_char c @ X) = consP c (parse_chars X)"
proof -
  define n where "n = (of_char c :: nat)"
  have special: "c = d \<Longrightarrow> d \<in> {CHR 0x08, CHR 0x09, CHR 0x0A, CHR 0x0C, CHR 0x0D, DQ, BSL} \<Longrightarrow> ?thesis" for d
    by (auto simp add: quote_char_def unescape_def)
  consider "n \<in> {8, 9, 10, 12, 13, 34, 92}"
    | "n < 32" "n \<notin> {8, 9, 10, 12, 13}" | "32 \<le> n" "n \<noteq> 34" "n \<noteq> 92"
    by fastforce
  then show ?thesis
  proof cases
    case 1
    then have "c \<in> {CHR 0x08, CHR 0x09, CHR 0x0A, CHR 0x0C, CHR 0x0D, DQ, BSL}"
      by (simp add: char_eq_nat n_def del: of_char_eq_iff)
    then show ?thesis
      using special by blast
  next
    case 2
    have c: "c = char_of n" by (simp add: n_def)
    from 2 show ?thesis
      by (simp add: quote_char_def Let_def hex4_control n_def[symmetric]) (simp add: c)
  next
    case 3
    then have "c \<noteq> DQ" "c \<noteq> BSL" "\<not> (of_char c :: nat) < 32"
      by (simp_all add: char_eq_nat n_def[symmetric] del: of_char_eq_iff)
    with 3 show ?thesis
      by (simp add: quote_char_def Let_def n_def[symmetric])
  qed
qed

lemma parse_chars_quoted:
  "parse_chars (concat (map quote_char s) @ DQ # rest) = Parsed (s, rest)"
  by (induction s) (simp_all add: parse_chars_quote_char consP_def)


lemma digits_of_not_Nil: "digits_of n \<noteq> []"
  by (subst digits_of.simps) simp

lemma digits_of_all_digits: "c \<in> set (digits_of n) \<Longrightarrow> is_digit c"
proof (induction n arbitrary: c rule: digits_of.induct)
  case (1 n)
  show ?case
  proof (cases "n < 10")
    case True
    with "1.prems" show ?thesis
      by (subst (asm) digits_of.simps) (simp add: is_digit_def)
  next
    case False
    have "n mod 10 < 10" by simp
    then have "is_digit (char_of (48 + n mod 10))"
      by (simp add: is_digit_def)
    with False "1.prems" "1.IH" show ?thesis
      by (subst (asm) digits_of.simps) auto
  qed
qed

lemma nat_of_digits_digits_of: "nat_of_digits (digits_of n) = n"
proof (induction n rule: digits_of.induct)
  case (1 n)
  show ?case
  proof (cases "n < 10")
    case True
    then show ?thesis
      by (subst digits_of.simps) (simp add: nat_of_digits_def)
  next
    case False
    have m: "n mod 10 < 10" by simp
    have "nat_of_digits (digits_of n) = 10 * nat_of_digits (digits_of (n div 10)) + n mod 10"
      using False m by (subst digits_of.simps) (simp add: nat_of_digits_def)
    with False "1.IH" show ?thesis by simp
  qed
qed

lemma hd_digits_of: "hd (digits_of n) = CHR ''0'' \<longleftrightarrow> n = 0"
proof (induction n rule: digits_of.induct)
  case (1 n)
  show ?case
  proof (cases "n < 10")
    case True
    then show ?thesis
      by (subst digits_of.simps) (simp add: char_eq_nat del: of_char_eq_iff)
  next
    case False
    then have "hd (digits_of n) = hd (digits_of (n div 10))"
      by (subst digits_of.simps) (simp add: digits_of_not_Nil)
    with False "1.IH" show ?thesis by simp
  qed
qed

lemma digits_of_0: "digits_of 0 = ''0''"
  by (subst digits_of.simps) (simp add: char_eq_nat del: of_char_eq_iff)

lemma takeWhile_digits:
  assumes "follow rest"
  shows "takeWhile is_digit (digits_of n @ rest) = digits_of n"
proof -
  have "takeWhile is_digit rest = []"
    using assms by (cases rest) (auto simp: follow_def)
  then show ?thesis
    by (simp add: takeWhile_append digits_of_all_digits)
qed

lemma int_part_digits:
  assumes "follow rest"
  shows "int_part (digits_of n @ rest) = digits_of n"
proof (cases "n = 0")
  case True
  then show ?thesis by (simp add: digits_of_0 int_part_def)
next
  case False
  then have "hd (digits_of n @ rest) \<noteq> CHR ''0''"
    by (simp add: digits_of_not_Nil hd_digits_of)
  then show ?thesis
    using assms by (simp add: int_part_def takeWhile_digits)
qed

lemma hd_digits_not_minus: "hd (digits_of n) \<noteq> CHR ''-''"
proof -
  have "hd (digits_of n) \<in> set (digits_of n)"
    by (simp add: digits_of_not_Nil)
  then have "is_digit (hd (digits_of n))"
    by (rule digits_of_all_digits)
  then show ?thesis
    by (auto simp: is_digit_def)
qed

lemma follow_hd: "follow rest \<Longrightarrow> rest \<noteq> [] \<Longrightarrow> hd rest \<noteq> CHR ''.'' \<and> hd rest \<noteq> CHR ''e'' \<and> hd rest \<noteq> CHR ''E''"
  by (auto simp: follow_def)

lemma parse_number_toString:
  assumes "isSafeInteger v" and "follow rest"
  shows "parse_number (Number_toString v @ rest) = Parsed (JNumber v, rest)"
proof (cases "v < 0")
  case True
  define n where "n = nat (- v)"
  have v: "- int n = v" using True by (simp add: n_def)
  have str: "Number_toString v @ rest = CHR ''-'' # digits_of n @ rest"
    using True by (simp add: Number_toString_def n_def)
  show ?thesis
    unfolding str parse_number_def using assms follow_hd[OF assms(2)]
    by (auto simp add: Let_def int_part_digits digits_of_not_Nil nat_of_digits_digits_of v)
next
  case False
  define n where "n = nat v"
  have v: "int n = v" using False by (simp add: n_def)
  have str: "Number_toString v @ rest = digits_of n @ rest"
    using False by (simp add: Number_toString_def n_def)
  have nm: "hd (digits_of n @ rest) \<noteq> CHR ''-''"
    by (simp add: digits_of_not_Nil hd_digits_not_minus)
  show ?thesis
    unfolding str parse_number_def using assms follow_hd[OF assms(2)] nm
    by (auto simp add: Let_def int_part_digits digits_of_not_Nil nat_of_digits_digits_of v)
qed


lemma hd_Number_toString:
  "Number_toString v \<noteq> [] \<and> (hd (Number_toString v) = CHR ''-'' \<or> is_digit (hd (Number_toString v)))"
proof -
  have "is_digit (hd (digits_of n))" for n
    using digits_of_all_digits[of "hd (digits_of n)" n] by (simp add: digits_of_not_Nil)
  then show ?thesis
    by (simp add: Number_toString_def digits_of_not_Nil)
qed

lemma Number_toString_Cons:
  obtains c cs where "Number_toString v = c # cs" "c = CHR ''-'' \<or> is_digit c"
  using hd_Number_toString[of v] by (cases "Number_toString v") auto

lemma digit_or_minus_dispatch:
  assumes "c = CHR ''-'' \<or> is_digit c"
  shows "c \<noteq> CHR ''['' \<and> c \<noteq> CHR ''{'' \<and> c \<noteq> DQ \<and> c \<noteq> CHR ''t'' \<and> c \<noteq> CHR ''f'' \<and> c \<noteq> CHR ''n'' \<and> \<not> is_ws c"
  using assms by (auto simp: is_digit_def is_ws_def)

lemma ser_start:
  "\<exists>c cs. SerializeJSONProperty i v = c # cs \<and> starter c"
proof (cases v)
  case (JNumber n)
  obtain c cs where "Number_toString n = c # cs" "c = CHR ''-'' \<or> is_digit c"
    by (rule Number_toString_Cons)
  with JNumber show ?thesis
    by (auto simp: starter_def is_ws_def is_digit_def)
qed (auto simp: is_ws_def QuoteJSONString_def starter_def)

lemma arr_start:
  "xs \<noteq> [] \<Longrightarrow> \<exists>c cs. SerializeJSONArray i xs = c # cs \<and> starter c"
  using ser_start[of i "hd xs"] by (cases xs) auto

lemma follow_simps: "follow (CHR '','' # X)" "follow (LF # X)" "follow []"
  by (simp_all add: follow_def is_digit_def)

lemma skip_ws_starter: "starter c \<Longrightarrow> skip_ws (c # X) = c # X"
  by (simp add: skip_ws_def starter_def)

lemma skip_ws_pad: "X = [] \<or> \<not> is_ws (hd X) \<Longrightarrow> skip_ws (LF # spaces k @ X) = X"
  by (cases X) (auto simp: skip_ws_def spaces_def dropWhile_append is_ws_def)

lemma skip_ws_pad_Cons: "\<not> is_ws c \<Longrightarrow> skip_ws (LF # spaces k @ c # X) = c # X"
  by (rule skip_ws_pad) simp

lemma skip_ws_space_Cons: "\<not> is_ws c \<Longrightarrow> skip_ws (CHR '' '' # c # X) = c # X"
  by (simp add: skip_ws_def is_ws_def)

lemma parse_value_roundtrip:
  "representable v \<Longrightarrow> follow rest \<Longrightarrow> length (SerializeJSONProperty i v) < n \<Longrightarrow>
     parse_value n (SerializeJSONProperty i v @ rest) = Parsed (v, rest)"
  "xs \<noteq> [] \<Longrightarrow> representable_list xs \<Longrightarrow> Suc (length (SerializeJSONArray i xs)) < n \<Longrightarrow>
     parse_elements n (SerializeJSONArray i xs @ LF # spaces j @ CHR '']'' # rest) = Parsed (xs, rest)"
  "ms \<noteq> [] \<Longrightarrow> representable_members ms \<Longrightarrow> Suc (length (SerializeJSONObject i ms)) < n \<Longrightarrow>
     parse_members n (SerializeJSONObject i ms @ LF # spaces j @ CHR ''}'' # rest) = Parsed (ms, rest)"
proof (induction i v and i xs and i ms arbitrary: n rest and n rest j and n rest j
    rule: SerializeJSONProperty_SerializeJSONArray_SerializeJSONObject.induct)
  case (1 i)
  then show ?case by (cases n) (simp_all add: parse_literal_def)
next
  case (2 i b)
  then show ?case by (cases n) (simp_all add: parse_literal_def)
next
  case (3 i v)
  obtain c cs where c: "Number_toString v = c # cs" "c = CHR ''-'' \<or> is_digit c"
    by (rule Number_toString_Cons)
  obtain m where n: "n = Suc m" using 3 by (cases n) auto
  have "parse_value n (Number_toString v @ rest) = parse_number (Number_toString v @ rest)"
    unfolding n using digit_or_minus_dispatch[OF c(2)] by (simp add: c(1))
  with 3 show ?case
    by (simp add: parse_number_toString)
next
  case (4 i s)
  then show ?case
    by (cases n) (simp_all add: QuoteJSONString_def parse_chars_quoted)
next
  case (5 i xs)
  obtain m where n: "n = Suc m" using 5 by (cases n) auto
  show ?case
  proof (cases "xs = []")
    case True
    then show ?thesis by (simp add: n skip_ws_def is_ws_def)
  next
    case False
    define k where "k = i + 2"
    define A where "A = SerializeJSONArray k xs"
    define T where "T = LF # spaces i @ CHR '']'' # rest"
    have str: "SerializeJSONProperty i (JArray xs) @ rest = CHR ''['' # LF # spaces k @ A @ T"
      using False by (simp add: A_def T_def k_def)
    obtain d r where dr: "A = d # r" "starter d"
      using arr_start[OF False, of k] by (auto simp: A_def)
    have sk: "skip_ws (LF # spaces k @ A @ T) = d # r @ T"
      using dr skip_ws_pad_Cons[of d k "r @ T"] by (simp add: starter_def)
    have len: "Suc (length A) < m"
      using "5.prems" False by (simp add: n A_def k_def)
    have "parse_elements m (A @ T) = Parsed (xs, rest)"
      unfolding A_def T_def k_def using "5.IH"[OF False False _ len[unfolded A_def k_def]] "5.prems" by simp
    then have "parse_elements m (d # r @ T) = Parsed (xs, rest)"
      by (simp add: dr)
    then show ?thesis
      unfolding str n using dr(2) by (simp add: sk starter_def)
  qed
next
  case (6 i ms)
  obtain m where n: "n = Suc m" using 6 by (cases n) auto
  show ?case
  proof (cases "ms = []")
    case True
    then show ?thesis by (simp add: n skip_ws_def is_ws_def)
  next
    case False
    define k where "k = i + 2"
    define A where "A = SerializeJSONObject k ms"
    define T where "T = LF # spaces i @ CHR ''}'' # rest"
    have str: "SerializeJSONProperty i (JObject ms) @ rest = CHR ''{'' # LF # spaces k @ A @ T"
      using False by (simp add: A_def T_def k_def)
    obtain r where dr: "A = DQ # r"
      using False by (cases ms) (auto simp: A_def QuoteJSONString_def)
    have sk: "skip_ws (LF # spaces k @ A @ T) = DQ # r @ T"
      using dr skip_ws_pad_Cons[of DQ k "r @ T"] by (simp add: is_ws_def)
    have len: "Suc (length A) < m"
      using "6.prems" False by (simp add: n A_def k_def)
    have "parse_members m (A @ T) = Parsed (ms, rest)"
      unfolding A_def T_def k_def using "6.IH"[OF False False _ len[unfolded A_def k_def]] "6.prems" by simp
    then have "parse_members m (DQ # r @ T) = Parsed (ms, rest)"
      by (simp add: dr)
    then show ?thesis
      unfolding str n by (simp add: sk)
  qed
next
  case (7 i)
  then show ?case by simp
next
  case (8 i x xs)
  obtain m where n: "n = Suc m" using 8 by (cases n) auto
  define X where "X = SerializeJSONProperty i x"
  define T where "T = LF # spaces j @ CHR '']'' # rest"
  have rx: "representable x" and rxs: "representable_list xs"
    using "8.prems" by simp_all
  show ?case
  proof (cases "xs = []")
    case True
    have str: "SerializeJSONArray i (x # xs) @ T = X @ T"
      using True by (simp add: X_def)
    have lenx: "length X < m" using "8.prems" True by (simp add: n X_def)
    have "parse_value m (X @ T) = Parsed (x, T)"
      unfolding X_def by (rule "8.IH"(1)[OF rx _ lenx[unfolded X_def]]) (simp add: T_def follow_simps)
    moreover have "skip_ws T = CHR '']'' # rest"
      unfolding T_def using skip_ws_pad_Cons[of "CHR '']''" j rest] by (simp add: is_ws_def)
    ultimately show ?thesis
      unfolding T_def[symmetric] str n using True by simp
  next
    case False
    define A where "A = SerializeJSONArray i xs"
    define R where "R = CHR '','' # LF # spaces i @ A @ T"
    have str: "SerializeJSONArray i (x # xs) @ T = X @ R"
      using False by (simp add: X_def R_def A_def)
    have lenx: "length X < m" and lena: "Suc (length A) < m"
      using "8.prems" False by (simp_all add: n X_def A_def)
    have 1: "parse_value m (X @ R) = Parsed (x, R)"
      unfolding X_def by (rule "8.IH"(1)[OF rx _ lenx[unfolded X_def]]) (simp add: R_def follow_simps)
    have 2: "skip_ws R = R"
      by (simp add: R_def skip_ws_def is_ws_def)
    obtain d r where dr: "A = d # r" "starter d"
      using arr_start[OF False, of i] by (auto simp: A_def)
    have 3: "skip_ws (LF # spaces i @ A @ T) = A @ T"
      using dr skip_ws_pad_Cons[of d i "r @ T"] by (simp add: starter_def)
    have 4: "parse_elements m (A @ T) = Parsed (xs, rest)"
      unfolding A_def T_def by (rule "8.IH"(2)[OF False False rxs lena[unfolded A_def]])
    show ?thesis
      unfolding T_def[symmetric] str n by (simp add: 1 2) (simp add: R_def 3 4)
  qed
next
  case (9 i)
  then show ?case by simp
next
  case (10 i m ms)
  obtain k where n: "n = Suc k" using 10 by (cases n) auto
  define X where "X = SerializeJSONProperty i (snd m)"
  define Q where "Q = concat (map quote_char (fst m))"
  define T where "T = LF # spaces j @ CHR ''}'' # rest"
  have rx: "representable (snd m)" and rxs: "representable_members ms"
    using "10.prems" by simp_all
  obtain c cs where c: "X = c # cs" "starter c"
    using ser_start[of i "snd m"] by (auto simp: X_def)
  have key: "parse_chars (Q @ DQ # Y) = Parsed (fst m, Y)" for Y
    unfolding Q_def by (rule parse_chars_quoted)
  have colon: "skip_ws (CHR '':'' # Y) = CHR '':'' # Y" for Y
    by (simp add: skip_ws_def is_ws_def)
  have sp: "skip_ws (CHR '' '' # X @ Y) = X @ Y" for Y
    using c skip_ws_space_Cons[of c "cs @ Y"] by (simp add: starter_def)
  show ?case
  proof (cases "ms = []")
    case True
    have str: "SerializeJSONObject i (m # ms) @ T = DQ # Q @ DQ # CHR '':'' # CHR '' '' # X @ T"
      using True by (simp add: X_def Q_def QuoteJSONString_def)
    have lenx: "length X < k" using "10.prems" True by (simp add: n X_def)
    have 1: "parse_value k (X @ T) = Parsed (snd m, T)"
      unfolding X_def by (rule "10.IH"(1)[OF rx _ lenx[unfolded X_def]]) (simp add: T_def follow_simps)
    have 2: "skip_ws T = CHR ''}'' # rest"
      unfolding T_def using skip_ws_pad_Cons[of "CHR ''}''" j rest] by (simp add: is_ws_def)
    show ?thesis
      unfolding T_def[symmetric] str n using True by (simp add: key colon sp 1 2)
  next
    case False
    define A where "A = SerializeJSONObject i ms"
    define R where "R = CHR '','' # LF # spaces i @ A @ T"
    have str: "SerializeJSONObject i (m # ms) @ T = DQ # Q @ DQ # CHR '':'' # CHR '' '' # X @ R"
      using False by (simp add: X_def Q_def R_def A_def QuoteJSONString_def)
    have lenx: "length X < k" and lena: "Suc (length A) < k"
      using "10.prems" False by (simp_all add: n X_def A_def)
    have 1: "parse_value k (X @ R) = Parsed (snd m, R)"
      unfolding X_def by (rule "10.IH"(1)[OF rx _ lenx[unfolded X_def]]) (simp add: R_def follow_simps)
    have 2: "skip_ws R = R"
      by (simp add: R_def skip_ws_def is_ws_def)
    obtain r where dr: "A = DQ # r"
      using False by (cases ms) (auto simp: A_def QuoteJSONString_def)
    have 3: "skip_ws (LF # spaces i @ A @ T) = A @ T"
      using dr skip_ws_pad_Cons[of DQ i "r @ T"] by (simp add: is_ws_def)
    have 4: "parse_members k (A @ T) = Parsed (ms, rest)"
      unfolding A_def T_def by (rule "10.IH"(2)[OF False False rxs lena[unfolded A_def]])
    show ?thesis
      unfolding T_def[symmetric] str n by (simp add: key colon sp 1 2) (simp add: R_def 3 4)
  qed
qed

theorem JSON_parse_stringify:
  assumes "representable v"
  shows "JSON_parse (JSON_stringify v) = Parsed v"
proof -
  obtain c cs where c: "SerializeJSONProperty 0 v = c # cs" "starter c"
    using ser_start[of 0 v] by auto
  have "skip_ws (SerializeJSONProperty 0 v) = SerializeJSONProperty 0 v"
    using c by (simp add: skip_ws_starter)
  moreover have "parse_value (Suc (2 * length (SerializeJSONProperty 0 v))) (SerializeJSONProperty 0 v @ []) = Parsed (v, [])"
    by (rule parse_value_roundtrip(1)[OF assms]) (simp_all add: follow_simps)
  ultimately show ?thesis
    by (simp add: JSON_parse_def JSON_stringify_def skip_ws_def)
qed

subsection \<open>The fuel of the parser is enough\<close>

text \<open>
  A successful parse consumes input, so the fuel that \<open>JSON_parse\<close> gives, twice the length
  of the text and one more, never runs out: \<open>JSON_parse\<close> answers for every text.
\<close>

lemma length_skip_ws: "length (skip_ws s) \<le> length s"
  by (simp add: skip_ws_def length_dropWhile_le)

lemma consP_Parsed: "consP c p = Parsed (x, r) \<Longrightarrow> \<exists>y. p = Parsed (y, r)"
  by (cases p) (auto simp add: consP_def)

lemma parse_chars_step:
  assumes "parse_chars (c # cs) = Parsed (x, r)"
  shows "r = cs \<or> (\<exists>t y. parse_chars t = Parsed (y, r) \<and> length t \<le> length cs)"
proof (cases "c = DQ")
  case True
  with assms show ?thesis by simp
next
  case notq: False
  show ?thesis
  proof (cases "c = BSL")
    case False
    with notq assms obtain y where "parse_chars cs = Parsed (y, r)"
      by (auto split: if_splits dest: consP_Parsed)
    then show ?thesis by auto
  next
    case True
    show ?thesis
    proof (cases cs)
      case Nil
      with True notq assms show ?thesis by simp
    next
      case (Cons e t)
      show ?thesis
      proof (cases "e = CHR ''u''")
        case u: True
        from assms True notq Cons u obtain h1 h2 h3 h4 r' y where
          "t = h1 # h2 # h3 # h4 # r'" "parse_chars r' = Parsed (y, r)"
          by (auto split: list.splits option.splits if_splits dest: consP_Parsed)
        then show ?thesis
          using Cons by auto
      next
        case nu: False
        from assms True notq Cons nu obtain y where "parse_chars t = Parsed (y, r)"
          by (auto split: option.splits dest: consP_Parsed)
        then show ?thesis
          using Cons by auto
      qed
    qed
  qed
qed

lemma parse_chars_consumes: "parse_chars s = Parsed (x, r) \<Longrightarrow> length r < length s"
proof (induction "length s" arbitrary: s x rule: less_induct)
  case less
  from less.prems obtain c cs where s: "s = c # cs"
    by (cases s) auto
  from parse_chars_step[of c cs x r] less.prems s
  consider "r = cs" | t y where "parse_chars t = Parsed (y, r)" "length t \<le> length cs"
    by auto
  then show ?case
  proof cases
    case 1
    then show ?thesis by (simp add: s)
  next
    case 2
    have "length r < length t"
      using less.hyps[of t y] 2 s by simp
    with 2 show ?thesis by (simp add: s)
  qed
qed

lemma parse_literal_consumes: "parse_literal s = Parsed (v, r) \<Longrightarrow> length r < length s"
proof -
  assume a: "parse_literal s = Parsed (v, r)"
  have "take n s = t \<Longrightarrow> length t = n \<Longrightarrow> 0 < n \<Longrightarrow> length (drop n s) < length s" for n t
  proof -
    assume "take n s = t" "length t = n" "0 < n"
    then have "n \<le> length s" "0 < n"
      by (auto simp add: min_def split: if_splits)
    then show ?thesis by simp
  qed
  from this[of 4 "''true''"] this[of 5 "''false''"] this[of 4 "''null''"] a show ?thesis
    by (auto simp add: parse_literal_def split: if_splits)
qed

lemma parse_number_consumes: "parse_number s = Parsed (v, r) \<Longrightarrow> length r < length s"
proof -
  assume a: "parse_number s = Parsed (v, r)"
  define s1 where "s1 = (if s \<noteq> [] \<and> hd s = CHR ''-'' then tl s else s)"
  have l: "length s1 \<le> length s" by (simp add: s1_def)
  from a have ne: "int_part s1 \<noteq> []" and r: "r = drop (length (int_part s1)) s1"
    by (auto simp add: parse_number_def Let_def s1_def split: if_splits)
  have "length (int_part s1) \<le> length s1"
    by (cases s1) (auto simp add: int_part_def length_takeWhile_le)
  with ne have "length r < length s1"
    unfolding r by (cases "int_part s1") auto
  with l show ?thesis by simp
qed


lemma bindP_Parsed: "bindP p f = Parsed y \<Longrightarrow> \<exists>a. p = Parsed a \<and> f a = Parsed y"
  by (cases p) auto

lemma skip_ws_Cons_length: "skip_ws s = d # r \<Longrightarrow> length r < length s"
  using length_skip_ws[of s] by simp

lemma parse_consumes:
  "(parse_value n s = Parsed (v, r) \<longrightarrow> length r < length s) \<and>
   (parse_elements n s = Parsed (xs, r) \<longrightarrow> length r < length s) \<and>
   (parse_members n s = Parsed (ms, r) \<longrightarrow> length r < length s)"
proof (induction n arbitrary: s v r xs ms)
  case 0
  show ?case by simp
next
  case (Suc n)
  have IHv: "parse_value n s = Parsed (v, r) \<Longrightarrow> length r < length s" for s v r
    using Suc by blast
  have IHe: "parse_elements n s = Parsed (xs, r) \<Longrightarrow> length r < length s" for s xs r
    using Suc by blast
  have IHm: "parse_members n s = Parsed (ms, r) \<Longrightarrow> length r < length s" for s ms r
    using Suc by blast
  have v: "length r < length s" if a: "parse_value (Suc n) s = Parsed (v, r)"
  proof (cases s)
    case Nil
    with a show ?thesis by simp
  next
    case (Cons c cs)
    consider "c = CHR ''[''" | "c = CHR ''{''" | "c = DQ"
      | "c \<noteq> CHR ''[''" "c \<noteq> CHR ''{''" "c \<noteq> DQ"
      by blast
    then show ?thesis
    proof cases
      case 1
      with a Cons obtain d t where sk: "skip_ws cs = d # t"
        by (cases "skip_ws cs") auto
      show ?thesis
      proof (cases "d = CHR '']''")
        case True
        with a Cons 1 sk have "r = t" by simp
        with skip_ws_Cons_length[OF sk] Cons show ?thesis by simp
      next
        case False
        with a Cons 1 sk obtain ys where "parse_elements n (d # t) = Parsed (ys, r)"
          by (auto dest!: bindP_Parsed)
        from IHe[OF this] skip_ws_Cons_length[OF sk] Cons show ?thesis by simp
      qed
    next
      case 2
      with a Cons obtain d t where sk: "skip_ws cs = d # t"
        by (cases "skip_ws cs") auto
      show ?thesis
      proof (cases "d = CHR ''}''")
        case True
        with a Cons 2 sk have "r = t" by simp
        with skip_ws_Cons_length[OF sk] Cons show ?thesis by simp
      next
        case False
        with a Cons 2 sk obtain ys where "parse_members n (d # t) = Parsed (ys, r)"
          by (auto dest!: bindP_Parsed)
        from IHm[OF this] skip_ws_Cons_length[OF sk] Cons show ?thesis by simp
      qed
    next
      case 3
      with a Cons obtain str where "parse_chars cs = Parsed (str, r)"
        by (auto dest!: bindP_Parsed)
      from parse_chars_consumes[OF this] Cons show ?thesis by simp
    next
      case 4
      with a Cons have "parse_literal s = Parsed (v, r) \<or> parse_number s = Parsed (v, r)"
        by (auto split: if_splits)
      then show ?thesis
        using parse_literal_consumes parse_number_consumes by blast
    qed
  qed
  have e: "length r < length s" if a: "parse_elements (Suc n) s = Parsed (xs, r)"
  proof -
    from a obtain x t where x: "parse_value n s = Parsed (x, t)"
      and rest: "(case skip_ws t of
         [] \<Rightarrow> SyntaxError
       | d # r' \<Rightarrow>
           if d = CHR '','' then
             bindP (parse_elements n (skip_ws r')) (\<lambda>(xs, r''). Parsed (x # xs, r''))
           else if d = CHR '']'' then Parsed ([x], r')
           else SyntaxError) = Parsed (xs, r)"
      by (auto dest!: bindP_Parsed)
    from rest obtain d t' where sk: "skip_ws t = d # t'"
      by (cases "skip_ws t") auto
    have lt: "length t < length s" using IHv[OF x] .
    have lt': "length t' < length t" using skip_ws_Cons_length[OF sk] .
    show ?thesis
    proof (cases "d = CHR '',''")
      case True
      with rest sk obtain ys where "parse_elements n (skip_ws t') = Parsed (ys, r)"
        by (auto dest!: bindP_Parsed)
      from IHe[OF this] length_skip_ws[of t'] lt lt' show ?thesis by simp
    next
      case False
      with rest sk have "r = t'" by (auto split: if_splits)
      with lt lt' show ?thesis by simp
    qed
  qed
  have m: "length r < length s" if a: "parse_members (Suc n) s = Parsed (ms, r)"
  proof -
    from a obtain c cs where s: "s = c # cs" and c: "c = DQ"
      by (cases s) (auto split: if_splits)
    from a s c obtain k t where k: "parse_chars cs = Parsed (k, t)"
      and rest1: "(case skip_ws t of
              [] \<Rightarrow> SyntaxError
            | d # r1 \<Rightarrow>
                if d \<noteq> CHR '':'' then SyntaxError
                else bindP (parse_value n (skip_ws r1)) (\<lambda>(v, r2).
                  case skip_ws r2 of
                    [] \<Rightarrow> SyntaxError
                  | d2 # r3 \<Rightarrow>
                      if d2 = CHR '','' then
                        bindP (parse_members n (skip_ws r3)) (\<lambda>(ms, r4). Parsed ((k, v) # ms, r4))
                      else if d2 = CHR ''}'' then Parsed ([(k, v)], r3)
                      else SyntaxError)) = Parsed (ms, r)"
      by (auto dest!: bindP_Parsed)
    from rest1 obtain d r1 where sk1: "skip_ws t = d # r1"
      by (cases "skip_ws t") auto
    from rest1 sk1 obtain x r2 where x: "parse_value n (skip_ws r1) = Parsed (x, r2)"
      and rest2: "(case skip_ws r2 of
                    [] \<Rightarrow> SyntaxError
                  | d2 # r3 \<Rightarrow>
                      if d2 = CHR '','' then
                        bindP (parse_members n (skip_ws r3)) (\<lambda>(ms, r4). Parsed ((k, x) # ms, r4))
                      else if d2 = CHR ''}'' then Parsed ([(k, x)], r3)
                      else SyntaxError) = Parsed (ms, r)"
      by (auto split: if_splits dest!: bindP_Parsed)
    from rest2 obtain d2 r3 where sk2: "skip_ws r2 = d2 # r3"
      by (cases "skip_ws r2") auto
    have l1: "length t < length cs" using parse_chars_consumes[OF k] .
    have l2: "length r1 < length t" using skip_ws_Cons_length[OF sk1] .
    have l3: "length r2 < length r1" using IHv[OF x] length_skip_ws[of r1] by simp
    have l4: "length r3 < length r2" using skip_ws_Cons_length[OF sk2] .
    show ?thesis
    proof (cases "d2 = CHR '',''")
      case True
      with rest2 sk2 obtain ys where "parse_members n (skip_ws r3) = Parsed (ys, r)"
        by (auto dest!: bindP_Parsed)
      from IHm[OF this] length_skip_ws[of r3] l1 l2 l3 l4 s show ?thesis by simp
    next
      case False
      with rest2 sk2 have "r = r3" by (auto split: if_splits)
      with l1 l2 l3 l4 s show ?thesis by simp
    qed
  qed
  from v e m show ?case by blast
qed


lemma bindP_OutOfFuel:
  "bindP p f = OutOfFuel \<Longrightarrow> p = OutOfFuel \<or> (\<exists>a. p = Parsed a \<and> f a = OutOfFuel)"
  by (cases p) auto

lemma consP_OutOfFuel: "consP c p = OutOfFuel \<Longrightarrow> p = OutOfFuel"
  by (cases p) (auto simp add: consP_def)

lemma parse_chars_fuel: "parse_chars s \<noteq> OutOfFuel"
proof (induction "length s" arbitrary: s rule: less_induct)
  case less
  show ?case
  proof
    assume a: "parse_chars s = OutOfFuel"
    then obtain c cs where s: "s = c # cs"
      by (cases s) auto
    from a s have "\<exists>t. parse_chars t = OutOfFuel \<and> length t < length s"
      by (auto split: if_splits list.splits option.splits dest!: consP_OutOfFuel)
    then show False
      using less.hyps by blast
  qed
qed

lemma parse_literal_fuel: "parse_literal s \<noteq> OutOfFuel"
  by (simp add: parse_literal_def)

lemma parse_number_fuel: "parse_number s \<noteq> OutOfFuel"
  by (simp add: parse_number_def Let_def)

lemma parse_fuel:
  "(2 * length s < n \<longrightarrow> parse_value n s \<noteq> OutOfFuel) \<and>
   (2 * length s + 1 < n \<longrightarrow> parse_elements n s \<noteq> OutOfFuel) \<and>
   (2 * length s + 1 < n \<longrightarrow> parse_members n s \<noteq> OutOfFuel)"
proof (induction n arbitrary: s)
  case 0
  show ?case by simp
next
  case (Suc n)
  have IHv: "2 * length s < n \<Longrightarrow> parse_value n s \<noteq> OutOfFuel" for s
    using Suc by blast
  have IHe: "2 * length s + 1 < n \<Longrightarrow> parse_elements n s \<noteq> OutOfFuel" for s
    using Suc by blast
  have IHm: "2 * length s + 1 < n \<Longrightarrow> parse_members n s \<noteq> OutOfFuel" for s
    using Suc by blast
  have v: "parse_value (Suc n) s \<noteq> OutOfFuel" if b: "2 * length s < Suc n"
  proof
    assume a: "parse_value (Suc n) s = OutOfFuel"
    then obtain c cs where s: "s = c # cs"
      by (cases s) auto
    from a s consider d t where "skip_ws cs = d # t" "parse_elements n (d # t) = OutOfFuel"
      | d t where "skip_ws cs = d # t" "parse_members n (d # t) = OutOfFuel"
      | "parse_chars cs = OutOfFuel" | "parse_literal s = OutOfFuel" | "parse_number s = OutOfFuel"
      by (auto split: if_splits list.splits dest!: bindP_OutOfFuel)
    then show False
    proof cases
      case 1
      have "length (d # t) \<le> length cs" using length_skip_ws[of cs] 1(1) by simp
      with b s have "2 * length (d # t) + 1 < n" by simp
      from IHe[OF this] 1(2) show False by simp
    next
      case 2
      have "length (d # t) \<le> length cs" using length_skip_ws[of cs] 2(1) by simp
      with b s have "2 * length (d # t) + 1 < n" by simp
      from IHm[OF this] 2(2) show False by simp
    qed (simp_all add: parse_chars_fuel parse_literal_fuel parse_number_fuel)
  qed
  have e: "parse_elements (Suc n) s \<noteq> OutOfFuel" if b: "2 * length s + 1 < Suc n"
  proof
    assume a: "parse_elements (Suc n) s = OutOfFuel"
    have bv: "2 * length s < n" using b by simp
    from a IHv[OF bv] obtain x t d t' where x: "parse_value n s = Parsed (x, t)"
      and sk: "skip_ws t = d # t'" and r: "parse_elements n (skip_ws t') = OutOfFuel"
      by (auto split: if_splits list.splits dest!: bindP_OutOfFuel)
    have "length t < length s" using x parse_consumes[of n s x t] by blast
    moreover have "length t' < length t" using skip_ws_Cons_length[OF sk] .
    ultimately have "2 * length (skip_ws t') + 1 < n"
      using length_skip_ws[of t'] b by simp
    from IHe[OF this] r show False by simp
  qed
  have m: "parse_members (Suc n) s \<noteq> OutOfFuel" if b: "2 * length s + 1 < Suc n"
  proof
    assume a: "parse_members (Suc n) s = OutOfFuel"
    then obtain c cs where s: "s = c # cs"
      by (cases s) auto
    from a s parse_chars_fuel[of cs] obtain k t d r1 where k: "parse_chars cs = Parsed (k, t)"
      and sk1: "skip_ws t = d # r1"
      and rest: "bindP (parse_value n (skip_ws r1)) (\<lambda>(v, r2).
                  case skip_ws r2 of
                    [] \<Rightarrow> SyntaxError
                  | d2 # r3 \<Rightarrow>
                      if d2 = CHR '','' then
                        bindP (parse_members n (skip_ws r3)) (\<lambda>(ms, r4). Parsed ((k, v) # ms, r4))
                      else if d2 = CHR ''}'' then Parsed ([(k, v)], r3)
                      else SyntaxError) = OutOfFuel"
      by (auto split: if_splits list.splits dest!: bindP_OutOfFuel)
    have l1: "length t < length cs" using parse_chars_consumes[OF k] .
    have l2: "length r1 < length t" using skip_ws_Cons_length[OF sk1] .
    have "2 * length (skip_ws r1) < n"
      using length_skip_ws[of r1] l1 l2 b s by simp
    from IHv[OF this] rest obtain x r2 d2 r3 where x: "parse_value n (skip_ws r1) = Parsed (x, r2)"
      and sk2: "skip_ws r2 = d2 # r3" and r: "parse_members n (skip_ws r3) = OutOfFuel"
      by (auto split: if_splits list.splits dest!: bindP_OutOfFuel)
    have l3: "length r2 < length (skip_ws r1)" using x parse_consumes[of n "skip_ws r1" x r2] by blast
    have l4: "length r3 < length r2" using skip_ws_Cons_length[OF sk2] .
    have "2 * length (skip_ws r3) + 1 < n"
      using length_skip_ws[of r3] length_skip_ws[of r1] l1 l2 l3 l4 b s by simp
    from IHm[OF this] r show False by simp
  qed
  from v e m show ?case by blast
qed

lemma JSON_parse_fuel: "JSON_parse s \<noteq> OutOfFuel"
proof
  assume a: "JSON_parse s = OutOfFuel"
  have "2 * length (skip_ws s) < Suc (2 * length s)"
    using length_skip_ws[of s] by simp
  then have "parse_value (Suc (2 * length s)) (skip_ws s) \<noteq> OutOfFuel"
    using parse_fuel[of "skip_ws s" "Suc (2 * length s)"] by blast
  with a show False
    by (auto simp add: JSON_parse_def split: if_splits dest!: bindP_OutOfFuel)
qed

section \<open>Identity derivation\<close>

lemma hex_digit_in: "d < 16 \<Longrightarrow> hex_digit d \<in> set ''0123456789abcdef''"
proof -
  assume "d < 16"
  then have "d \<in> {0, 1, 2, 3, 4, 5, 6, 7, 8, 9, 10, 11, 12, 13, 14, 15}"
    by simp arith
  then show ?thesis
    by (auto simp add: hex_digit_def char_eq_nat simp del: of_char_eq_iff)
qed

lemma nibble_lt_16: "unat (w AND (0xF :: word32)) < 16"
proof -
  have "unat (w AND 0xF) \<le> unat (0xF :: word32)"
    by (rule word_and_le1 [THEN word_le_nat_alt [THEN iffD1]])
  then show ?thesis by simp
qed

lemma length_hex_word32: "length (hex_word32 w) = 8"
  by (simp add: hex_word32_def)

lemma set_hex_word32: "set (hex_word32 w) \<subseteq> set ''0123456789abcdef''"
  unfolding hex_word32_def using hex_digit_in[OF nibble_lt_16] by auto

lemma length_sha256_hex: "length (sha256_hex m) = 64"
  by (simp add: sha256_hex_def Let_def length_hex_word32)

lemma set_sha256_hex: "set (sha256_hex m) \<subseteq> set ''0123456789abcdef''"
  unfolding sha256_hex_def Let_def using set_hex_word32 by auto

subsection \<open>A test vector of SHA-256\<close>

text \<open>
  The digest of \<^verbatim>\<open>abc\<close> is computed step by step inside the logic: padding, the
  sixteen message words, the message schedule, the 64 rounds, the final addition and the
  hexadecimal rendering. Rotations are rewritten to shifts and every round reduces its
  two new words modulo \<open>2^32\<close>, so that the numerals stay small.
\<close>

lemma rotr32:
  fixes w :: word32
  assumes "0 < n" "n < 32"
  shows "word_rotr n w = drop_bit n w OR push_bit (32 - n) w"
proof (rule bit_word_eqI)
  fix k :: nat
  assume k: "k < LENGTH(32)"
  show "bit (word_rotr n w) k = bit (drop_bit n w OR push_bit (32 - n) w) k"
  proof (cases "k + n < 32")
    case True
    then have "(k + n) mod 32 = n + k" and "\<not> 32 - n \<le> k" by simp_all
    with k show ?thesis
      by (simp add: bit_word_rotr_iff bit_or_iff bit_drop_bit_eq bit_push_bit_iff add.commute)
  next
    case False
    then have m: "(k + n) mod 32 = k + n - 32"
      using k assms by (simp add: mod_if)
    from False have "\<not> bit w (n + k)"
      using bit_imp_le_length [of w "n + k"] by auto
    with False k assms m show ?thesis
      by (auto simp add: bit_word_rotr_iff bit_or_iff bit_drop_bit_eq bit_push_bit_iff)
  qed
qed

lemma norm32: "(w :: word32) = word_of_nat (unat w mod 4294967296)"
proof -
  have "unat w < 2 ^ LENGTH(32)"
    by (rule unsigned_less)
  then show ?thesis
    by simp
qed

lemma words_of_numeral:
  "words_of (numeral k) bs = be_word32 (take 4 bs) # words_of (pred_numeral k) (drop 4 bs)"
proof -
  have "numeral k = Suc (pred_numeral k)"
    by (rule numeral_eq_Suc)
  then show ?thesis
    by (simp only: words_of.simps)
qed

lemma schedule_numeral:
  "schedule (numeral k) w =
     schedule (pred_numeral k)
       (w @ [word_of_nat (unat (sigma1 (w ! (length w - 2)) + w ! (length w - 7)
               + sigma0 (w ! (length w - 15)) + w ! (length w - 16)) mod 4294967296)])"
proof -
  have "numeral k = Suc (pred_numeral k)"
    by (rule numeral_eq_Suc)
  then show ?thesis
    unfolding norm32 [symmetric] by (simp only: schedule.simps Let_def)
qed

lemma sha_round_record:
  "sha_round \<lparr>ha = a, hb = b, hc = c, hd' = d, he = e, hf = f, hg = g, hh = h\<rparr> (k, w) =
     \<lparr>ha = word_of_nat (unat ((h + Sigma1 e + Ch e f g + k + w) + (Sigma0 a + Maj a b c)) mod 4294967296),
      hb = a, hc = b, hd' = c,
      he = word_of_nat (unat (d + (h + Sigma1 e + Ch e f g + k + w)) mod 4294967296),
      hf = e, hg = f, hh = g\<rparr>"
  unfolding norm32 [symmetric]
  by (simp add: sha_round_def Let_def)

lemma sha_pad_abc:
  "sha_pad [97, 98, 99] =
    [97, 98, 99, 128, 0, 0, 0, 0, 0, 0, 0, 0, 0, 0, 0, 0,
     0, 0, 0, 0, 0, 0, 0, 0, 0, 0, 0, 0, 0, 0, 0, 0,
     0, 0, 0, 0, 0, 0, 0, 0, 0, 0, 0, 0, 0, 0, 0, 0,
     0, 0, 0, 0, 0, 0, 0, 0, 0, 0, 0, 0, 0, 0, 0, 24]"
proof -
  have "[0..<8] = [0, 1, 2, 3, 4, 5, 6, 7]"
    by (simp add: upt_rec)
  moreover have "replicate 52 (0 :: byte) =
    [0, 0, 0, 0, 0, 0, 0, 0, 0, 0, 0, 0, 0, 0, 0, 0, 0, 0, 0, 0, 0, 0, 0, 0, 0, 0,
     0, 0, 0, 0, 0, 0, 0, 0, 0, 0, 0, 0, 0, 0, 0, 0, 0, 0, 0, 0, 0, 0, 0, 0, 0, 0]"
    by (simp add: numeral_eq_Suc)
  ultimately show ?thesis
    by (simp add: sha_pad_def be_bytes_def)
qed

lemma words_of_abc:
  "words_of 16
    [97, 98, 99, 128, 0, 0, 0, 0, 0, 0, 0, 0, 0, 0, 0, 0,
     0, 0, 0, 0, 0, 0, 0, 0, 0, 0, 0, 0, 0, 0, 0, 0,
     0, 0, 0, 0, 0, 0, 0, 0, 0, 0, 0, 0, 0, 0, 0, 0,
     0, 0, 0, 0, 0, 0, 0, 0, 0, 0, 0, 0, 0, 0, 0, 24] =
    [1633837952, 0, 0, 0, 0, 0, 0, 0,
     0, 0, 0, 0, 0, 0, 0, 24]"
  by (simp add: words_of_numeral be_word32_def)

lemma schedule_abc:
  "schedule 48
    [1633837952, 0, 0, 0, 0, 0, 0, 0,
     0, 0, 0, 0, 0, 0, 0, 24] =
    [1633837952, 0, 0, 0, 0, 0, 0, 0,
     0, 0, 0, 0, 0, 0, 0, 24,
     1633837952, 983040, 2108187653, 1610613702, 1050508152, 25426944, 316456923, 3806512014,
     3357629466, 3073800610, 3854317833, 845560923, 2636160359, 3968280267, 1881225380, 3552024379,
     2482346367, 996719219, 2952069057, 4043988066, 176896406, 1924104970, 2483675966, 610538786,
     2672279444, 4037431130, 1042573945, 657669027, 206005234, 2215296807, 2049510749, 106709978,
     4215179723, 3430291419, 3118885940, 2845390439, 2226839261, 3256115900, 344409900, 2987358873,
     4015503821, 3957764664, 2682456414, 2025622859, 2755645205, 1720397816, 4004225740, 313650667]"
  by (simp add: schedule_numeral sigma0_def sigma1_def rotr32)

lemma rounds_abc:
  "foldl sha_round H256 (zip K256
    [1633837952, 0, 0, 0, 0, 0, 0, 0,
     0, 0, 0, 0, 0, 0, 0, 24,
     1633837952, 983040, 2108187653, 1610613702, 1050508152, 25426944, 316456923, 3806512014,
     3357629466, 3073800610, 3854317833, 845560923, 2636160359, 3968280267, 1881225380, 3552024379,
     2482346367, 996719219, 2952069057, 4043988066, 176896406, 1924104970, 2483675966, 610538786,
     2672279444, 4037431130, 1042573945, 657669027, 206005234, 2215296807, 2049510749, 106709978,
     4215179723, 3430291419, 3118885940, 2845390439, 2226839261, 3256115900, 344409900, 2987358873,
     4015503821, 3957764664, 2682456414, 2025622859, 2755645205, 1720397816, 4004225740, 313650667]) =
   \<lparr>ha = 1349398616, hb = 3550093669, hc = 80891244, hd' = 3093179625,
    he = 1593118500, hf = 4212265488, hg = 2492278198, hh = 2518632596\<rparr>"
  by (simp add: K256_def H256_def sha_round_record Sigma0_def Sigma1_def Ch_def Maj_def rotr32)

lemma sha_compress_abc:
  "sha_compress H256
    [97, 98, 99, 128, 0, 0, 0, 0, 0, 0, 0, 0, 0, 0, 0, 0,
     0, 0, 0, 0, 0, 0, 0, 0, 0, 0, 0, 0, 0, 0, 0, 0,
     0, 0, 0, 0, 0, 0, 0, 0, 0, 0, 0, 0, 0, 0, 0, 0,
     0, 0, 0, 0, 0, 0, 0, 0, 0, 0, 0, 0, 0, 0, 0, 24] =
   \<lparr>ha = 3128432319, hb = 2399260650, hc = 1094795486, hd' = 1571693091,
    he = 2953011619, hf = 2518121116, hg = 3021012833, hh = 4060091821\<rparr>"
  unfolding sha_compress_def words_of_abc schedule_abc Let_def rounds_abc
  by (simp add: H256_def)

lemma sha256_abc:
  "sha256 [97, 98, 99] =
   \<lparr>ha = 3128432319, hb = 2399260650, hc = 1094795486, hd' = 1571693091,
    he = 2953011619, hf = 2518121116, hg = 3021012833, hh = 4060091821\<rparr>"
  unfolding sha256_def sha_pad_abc Let_def
  by (simp add: sha_compress_abc)

lemma sha256_hex_abc:
  "sha256_hex [97, 98, 99] =
     ''ba7816bf8f01cfea414140de5dae2223b00361a396177a9cb410ff61f20015ad''"
  unfolding sha256_hex_def sha256_abc Let_def
  by (simp add: hex_word32_def hex_digit_def char_eq_nat del: of_char_eq_iff)

lemma utf8_encode_abc: "utf8_encode ''abc'' = [97, 98, 99]"
  by (simp add: utf8_encode_def utf8_char_def)

lemma getUserIdFromApiKey_abc: "getUserIdFromApiKey ''abc'' = ''ba7816bf8f01cfea''"
  by (simp add: getUserIdFromApiKey_def utf8_encode_abc sha256_hex_abc)

text \<open>
  Claim C6. \<open>getUserIdFromApiKey\<close> returns the sentinel \<open>anonymous\<close> for the empty
  credential. For a non-empty credential it returns the first 16 characters of the
  hexadecimal SHA-256 digest of the credential: a string of exactly 16 characters, each of
  them a lower-case hexadecimal digit. The result is a function of the credential alone,
  so the same credential always gives the same identifier.
\<close>

theorem getUserIdFromApiKey_spec:
  "getUserIdFromApiKey [] = ''anonymous'' \<and>
   (apiKey \<noteq> [] \<longrightarrow>
      getUserIdFromApiKey apiKey = take 16 (sha256_hex (utf8_encode apiKey)) \<and>
      length (getUserIdFromApiKey apiKey) = 16 \<and>
      set (getUserIdFromApiKey apiKey) \<subseteq> set ''0123456789abcdef'')"
proof -
  have "set (take 16 (sha256_hex m)) \<subseteq> set ''0123456789abcdef''" for m
    using set_sha256_hex[of m] set_take_subset[of 16 "sha256_hex m"] by blast
  then show ?thesis
    by (simp add: getUserIdFromApiKey_def length_sha256_hex)
qed

theorem getUserIdFromApiKey_spec_witness:
  "''abc'' \<noteq> [] \<and> length (getUserIdFromApiKey ''abc'') = 16 \<and>
   set (getUserIdFromApiKey ''abc'') \<subseteq> set ''0123456789abcdef'' \<and>
   getUserIdFromApiKey ''abc'' = take 16 (sha256_hex (utf8_encode ''abc'')) \<and>
   getUserIdFromApiKey ''abc'' = ''ba7816bf8f01cfea''"
proof -
  have "''abc'' \<noteq> []" by simp
  with getUserIdFromApiKey_spec[of "''abc''"] getUserIdFromApiKey_abc show ?thesis by blast
qed

section \<open>The store and the ledger\<close>

lemma sent_send: "sent (snd (send s c)) = sent s @ [c]"
  by (simp add: send_def Let_def split: fate.split)

lemma fates_send: "fates (snd (send s c)) = fates s"
  by (simp add: send_def Let_def split: fate.split)

lemma objects_send:
  "objects (snd (send s c)) =
     (if fates s (length (sent s)) = Dropped then objects s else effect c (objects s))"
  by (simp add: send_def Let_def split: fate.split)

lemma fst_send:
  "fst (send s c) =
     (if fates s (length (sent s)) = Served then respond c (objects s) else Inl ServiceFailure)"
  by (simp add: send_def Let_def split: fate.split)

lemma snd_deleteImage: "snd (deleteImage s k) = snd (send s (DeleteObject k))"
  by (simp add: deleteImage_def split: prod.split sum.split)

lemma fst_deleteImage: "fst (deleteImage s k) = (fates s (length (sent s)) = Served)"
proof -
  have "fst (deleteImage s k) = (case fst (send s (DeleteObject k)) of Inr out \<Rightarrow> True | Inl e \<Rightarrow> False)"
    by (simp add: deleteImage_def split: prod.split sum.split)
  then show ?thesis by (simp add: fst_send)
qed

lemma snd_saveHistory:
  "snd (saveHistory s u h) =
     snd (send s (PutObject (getHistoryFileKey u) (Text (JSON_stringify (toJSON h))) ''application/json''))"
  by (simp add: saveHistory_def Let_def split: prod.split sum.split)

lemma fst_saveHistory: "fst (saveHistory s u h) = (fates s (length (sent s)) = Served)"
proof -
  have "fst (saveHistory s u h) =
      (case fst (send s (PutObject (getHistoryFileKey u) (Text (JSON_stringify (toJSON h))) ''application/json'')) of
         Inr out \<Rightarrow> True | Inl e \<Rightarrow> False)"
    by (simp add: saveHistory_def Let_def split: prod.split sum.split)
  then show ?thesis by (simp add: fst_send)
qed

lemma snd_loadHistory: "snd (loadHistory s u) = snd (send s (GetObject (getHistoryFileKey u)))"
  by (simp add: loadHistory_def Let_def split: prod.split sum.split s3_output.split body.split parsed.split)

lemma loadHistory_state:
  assumes "loadHistory s u = (r, s1)"
  shows "sent s1 = sent s @ [GetObject (getHistoryFileKey u)]" and "objects s1 = objects s"
    and "fates s1 = fates s"
  using assms snd_loadHistory[of s u] by (simp_all add: sent_send objects_send fates_send)


lemma find_None_ids: "find (\<lambda>h. id' h = i) history = None \<longleftrightarrow> (\<forall>h\<in>set history. id' h \<noteq> i)"
  by (auto simp add: find_None_iff)

lemma find_by_unique_id:
  assumes "distinct (map id' history)" and "item \<in> set history"
  shows "find (\<lambda>h. id' h = id' item) history = Some item"
  using assms
proof (induction history)
  case Nil
  then show ?case by simp
next
  case (Cons h history)
  then show ?case by (cases "h = item") force+
qed

lemma deleteHistoryItem_found:
  assumes load: "loadHistory s userId = (Some history, s1)"
    and found: "find (\<lambda>h. id' h = i) history = Some item"
  shows "\<exists>s4. deleteHistoryItem s userId i =
            Some (saveHistory s4 userId (filter (\<lambda>h. id' h \<noteq> i) history))
          \<and> sent s4 = sent s1 @ [DeleteObject (imageKey item),
                DeleteObject (getThumbnailKeyFromImageKey (imageKey item))]
              @ reference_cleanup history i item
          \<and> fates s4 = fates s"
proof -
  define s2 where "s2 = snd (deleteImage s1 (imageKey item))"
  define s3 where "s3 = snd (deleteImage s2 (getThumbnailKeyFromImageKey (imageKey item)))"
  have f1: "fates s1 = fates s" using loadHistory_state(3)[OF load] .
  have sent3: "sent s3 = sent s1 @ [DeleteObject (imageKey item),
      DeleteObject (getThumbnailKeyFromImageKey (imageKey item))]"
    by (simp add: s3_def s2_def snd_deleteImage sent_send)
  have fates3: "fates s3 = fates s"
    by (simp add: s3_def s2_def snd_deleteImage fates_send f1)
  have unfold: "deleteHistoryItem s userId i =
      Some (saveHistory
        (case inputImageKey item of
           Some k \<Rightarrow>
             if k \<noteq> [] then
               if \<not> list_ex (\<lambda>h. id' h \<noteq> i \<and> inputImageKey h = inputImageKey item) history
               then snd (deleteImage s3 k) else s3
             else s3
         | None \<Rightarrow> s3)
        userId (filter (\<lambda>h. id' h \<noteq> i) history))"
    using load found by (simp add: deleteHistoryItem_def Let_def s2_def s3_def split: option.split)
  show ?thesis
  proof (cases "inputImageKey item")
    case None
    show ?thesis
      by (rule exI[of _ s3]) (simp add: unfold None sent3 fates3 reference_cleanup_def)
  next
    case (Some k)
    show ?thesis
    proof (cases "k = [] \<or> (\<exists>h\<in>set history. id' h \<noteq> i \<and> inputImageKey h = Some k)")
      case True
      then show ?thesis
        by (intro exI[of _ s3]) (auto simp add: unfold Some sent3 fates3 reference_cleanup_def list_ex_iff)
    next
      case False
      define s4 where "s4 = snd (deleteImage s3 k)"
      have "sent s4 = sent s3 @ [DeleteObject k]" "fates s4 = fates s"
        by (simp_all add: s4_def snd_deleteImage sent_send fates_send fates3)
      with False show ?thesis
        by (intro exI[of _ s4]) (auto simp add: unfold Some sent3 s4_def reference_cleanup_def list_ex_iff)
    qed
  qed
qed


lemma those_map_Some: "those (map Some ks) = Some ks"
  by (induction ks) simp_all

lemma as_strings_JStrings: "as_strings (JStrings ks) = Some ks"
proof -
  have "as_string \<circ> JString = Some"
    by (simp add: fun_eq_iff)
  then show ?thesis
    by (simp add: JStrings_def those_map_Some)
qed

lemma as_Mode_Mode_string: "as_Mode (JString (Mode_string m)) = Some m"
  by (cases m) (simp_all add: as_Mode_def)

lemma as_HistoryItem_toJSON_item: "as_HistoryItem (toJSON_item h) = Some h"
proof (cases h)
  case (fields v1 v2 v3 v4 v5 v6 v7 v8 v9 v10 v11)
  show ?thesis
    unfolding fields
    by (cases v7; cases v8; cases v9; cases v10; cases v11)
       (simp_all add: toJSON_item_def as_HistoryItem_members_def as_Mode_Mode_string as_strings_JStrings)
qed

lemma as_History_toJSON: "as_History (toJSON history) = Some history"
proof -
  have "as_HistoryItem \<circ> toJSON_item = Some"
    by (simp add: fun_eq_iff as_HistoryItem_toJSON_item)
  then show ?thesis
    by (simp add: toJSON_def those_map_Some)
qed


lemma representable_JStrings: "representable (JStrings ks)"
proof -
  have "representable_list (map JString ks)"
    by (induction ks) simp_all
  then show ?thesis by (simp add: JStrings_def)
qed

lemma representable_members_append:
  "representable_members (xs @ ys) = (representable_members xs \<and> representable_members ys)"
  by (induction xs) simp_all

lemma representable_property_string: "representable_members (property k (map_option JString v))"
  by (cases v) simp_all

lemma representable_property_strings: "representable_members (property k (map_option JStrings v))"
  by (cases v) (simp_all add: representable_JStrings)

lemma representable_toJSON_item: "representable (toJSON_item h) = isSafeInteger (timestamp h)"
  by (simp add: toJSON_item_def representable_members_append representable_property_string
      representable_property_strings)

lemma representable_toJSON:
  "representable (toJSON history) = (\<forall>h\<in>set history. isSafeInteger (timestamp h))"
proof -
  have "representable_list (map toJSON_item history) = (\<forall>h\<in>set history. isSafeInteger (timestamp h))"
    by (induction history) (simp_all add: representable_toJSON_item)
  then show ?thesis by (simp add: toJSON_def)
qed

lemma loadHistory_stored:
  assumes "objects s (getHistoryFileKey u) =
      Some \<lparr>Body = Text (JSON_stringify (toJSON history)), ContentType = ct\<rparr>"
    and "fates s (length (sent s)) = Served"
    and "\<forall>h\<in>set history. isSafeInteger (timestamp h)"
  shows "fst (loadHistory s u) = Some history"
  using assms
  by (simp add: loadHistory_def send_def Let_def JSON_parse_stringify representable_toJSON as_History_toJSON)

lemma loadHistory_absent:
  assumes "objects s (getHistoryFileKey u) = None"
  shows "fst (loadHistory s u) = Some []"
  using assms
  by (simp add: loadHistory_def send_def Let_def split: fate.split)

lemma saveHistory_True:
  assumes "saveHistory s u history = (True, s1)"
  shows "objects s1 (getHistoryFileKey u) =
      Some \<lparr>Body = Text (JSON_stringify (toJSON history)), ContentType = ''application/json''\<rparr>"
    and "sent s1 = sent s @ [PutObject (getHistoryFileKey u) (Text (JSON_stringify (toJSON history))) ''application/json'']"
    and "fates s1 = fates s"
proof -
  have served: "fates s (length (sent s)) = Served"
    using assms fst_saveHistory[of s u history] by simp
  have s1: "s1 = snd (send s (PutObject (getHistoryFileKey u) (Text (JSON_stringify (toJSON history))) ''application/json''))"
    using assms snd_saveHistory[of s u history] by simp
  show "objects s1 (getHistoryFileKey u) =
      Some \<lparr>Body = Text (JSON_stringify (toJSON history)), ContentType = ''application/json''\<rparr>"
    by (simp add: s1 objects_send served)
  show "sent s1 = sent s @ [PutObject (getHistoryFileKey u) (Text (JSON_stringify (toJSON history))) ''application/json'']"
    by (simp add: s1 sent_send)
  show "fates s1 = fates s"
    by (simp add: s1 fates_send)
qed


lemma canonicalize_eq_iff:
  "canonicalize c = CHR ''.'' \<longleftrightarrow> c = CHR ''.''"
  "canonicalize c = CHR ''J'' \<longleftrightarrow> c = CHR ''j'' \<or> c = CHR ''J''"
  "canonicalize c = CHR ''P'' \<longleftrightarrow> c = CHR ''p'' \<or> c = CHR ''P''"
  "canonicalize c = CHR ''G'' \<longleftrightarrow> c = CHR ''g'' \<or> c = CHR ''G''"
  by (auto simp add: canonicalize_def Let_def char_eq_nat simp del: of_char_eq_iff)

lemma canonicalize_jpg: "map canonicalize ''.jpg'' = ''.JPG''"
  by (simp add: canonicalize_def char_eq_nat del: of_char_eq_iff)

lemma ci_eq_jpg: "ci_eq t ''.jpg'' \<longleftrightarrow> t \<in> set jpg_endings"
proof
  assume "ci_eq t ''.jpg''"
  then have m: "map canonicalize t = ''.JPG''"
    by (simp only: ci_eq_def canonicalize_jpg)
  then have "length (map canonicalize t) = length ''.JPG''"
    by (rule arg_cong)
  then have "length t = 4"
    by simp
  then obtain a b c d where t: "t = [a, b, c, d]"
    by (auto simp add: length_Suc_conv numeral_eq_Suc)
  from m show "t \<in> set jpg_endings"
    unfolding t by (auto simp add: canonicalize_eq_iff jpg_endings_def)
next
  assume "t \<in> set jpg_endings"
  then show "ci_eq t ''.jpg''"
    by (auto simp add: jpg_endings_def ci_eq_def canonicalize_def char_eq_nat simp del: of_char_eq_iff)
qed

lemma length_jpg_endings: "e \<in> set jpg_endings \<Longrightarrow> length e = 4"
  by (auto simp add: jpg_endings_def)

lemma thumbnail_key_unchanged:
  assumes "\<forall>e\<in>set jpg_endings. \<not> suffix e key"
  shows "getThumbnailKeyFromImageKey key = key"
proof -
  have "\<not> (4 \<le> length key \<and> ci_eq (drop (length key - 4) key) ''.jpg'')"
  proof
    assume a: "4 \<le> length key \<and> ci_eq (drop (length key - 4) key) ''.jpg''"
    then have "drop (length key - 4) key \<in> set jpg_endings"
      by (simp add: ci_eq_jpg)
    moreover have "suffix (drop (length key - 4) key) key"
      by (rule suffix_drop)
    ultimately show False using assms by blast
  qed
  then show ?thesis
    by (auto simp add: getThumbnailKeyFromImageKey_def Let_def)
qed

lemma thumbnail_key_jpg:
  assumes "e \<in> set jpg_endings"
  shows "getThumbnailKeyFromImageKey (stem @ e) = stem @ ''_thumb.jpg''"
  using assms by (simp add: getThumbnailKeyFromImageKey_def Let_def length_jpg_endings ci_eq_jpg)

section \<open>Deleting a history item\<close>

lemma loadHistory_example_store:
  assumes "f 0 = Served" and "\<forall>h\<in>set history. isSafeInteger (timestamp h)"
  shows "loadHistory (example_store history f) ''u1''
     = (Some history, snd (loadHistory (example_store history f) ''u1''))"
proof -
  have "fst (loadHistory (example_store history f) ''u1'') = Some history"
    by (rule loadHistory_stored[where ct = "''application/json''"])
       (simp_all add: example_store_def assms)
  then show ?thesis
    by (metis prod.collapse)
qed

lemma isSafeInteger_example: "isSafeInteger (timestamp (example_item i k))"
  by (simp add: example_item_def isSafeInteger_def)

text \<open>
  Claim C4. When the loaded history of the user has no item with the given id,
  \<open>deleteHistoryItem\<close> returns false, the only request it sends is the read of the history
  document (no save, no blob deletion), and the objects of the store, the history document
  among them, are unchanged.
\<close>

theorem deleteHistoryItem_unknown_id:
  assumes "loadHistory s userId = (Some history, s1)"
    and "\<forall>h\<in>set history. id' h \<noteq> i"
  shows "deleteHistoryItem s userId i = Some (False, s1) \<and>
         sent s1 = sent s @ [GetObject (getHistoryFileKey userId)] \<and>
         objects s1 = objects s"
proof -
  have "find (\<lambda>h. id' h = i) history = None"
    using assms(2) by (simp add: find_None_ids)
  then have "deleteHistoryItem s userId i = Some (False, s1)"
    using assms(1) by (simp add: deleteHistoryItem_def)
  then show ?thesis
    using loadHistory_state(1,2)[OF assms(1)] by simp
qed

theorem deleteHistoryItem_unknown_id_witness:
  "loadHistory (example_store [example_item ''a'' None] (\<lambda>n. Served)) ''u1''
     = (Some [example_item ''a'' None],
        snd (loadHistory (example_store [example_item ''a'' None] (\<lambda>n. Served)) ''u1'')) \<and>
   id' (example_item ''a'' None) \<noteq> ''zz'' \<and>
   fst (the (deleteHistoryItem (example_store [example_item ''a'' None] (\<lambda>n. Served)) ''u1'' ''zz'')) = False \<and>
   objects (snd (the (deleteHistoryItem (example_store [example_item ''a'' None] (\<lambda>n. Served)) ''u1'' ''zz'')))
     = objects (example_store [example_item ''a'' None] (\<lambda>n. Served))"
proof -
  have l: "loadHistory (example_store [example_item ''a'' None] (\<lambda>n. Served)) ''u1''
     = (Some [example_item ''a'' None],
        snd (loadHistory (example_store [example_item ''a'' None] (\<lambda>n. Served)) ''u1''))"
    by (rule loadHistory_example_store) (simp_all add: isSafeInteger_example)
  have i: "\<forall>h\<in>set [example_item ''a'' None]. id' h \<noteq> ''zz''"
    by (simp add: example_item_def)
  from deleteHistoryItem_unknown_id[OF l i] l i show ?thesis
    by simp
qed


lemma deleteHistoryItem_requests:
  assumes load: "loadHistory s userId = (Some history, s1)"
    and found: "find (\<lambda>h. id' h = i) history = Some item"
  shows "\<exists>ok s' s4. deleteHistoryItem s userId i = Some (ok, s')
          \<and> (ok, s') = saveHistory s4 userId (filter (\<lambda>h. id' h \<noteq> i) history)
          \<and> drop (length (sent s)) (sent s') =
              [GetObject (getHistoryFileKey userId), DeleteObject (imageKey item),
               DeleteObject (getThumbnailKeyFromImageKey (imageKey item))]
              @ reference_cleanup history i item
              @ [PutObject (getHistoryFileKey userId)
                   (Text (JSON_stringify (toJSON (filter (\<lambda>h. id' h \<noteq> i) history))))
                   ''application/json'']
          \<and> ok = (fates s (length (sent s') - 1) = Served)
          \<and> (ok \<longrightarrow> objects s' (getHistoryFileKey userId) =
                Some \<lparr>Body = Text (JSON_stringify (toJSON (filter (\<lambda>h. id' h \<noteq> i) history))),
                      ContentType = ''application/json''\<rparr>)"
proof -
  obtain s4 where d: "deleteHistoryItem s userId i =
        Some (saveHistory s4 userId (filter (\<lambda>h. id' h \<noteq> i) history))"
    and sent4: "sent s4 = sent s1 @ [DeleteObject (imageKey item),
          DeleteObject (getThumbnailKeyFromImageKey (imageKey item))]
        @ reference_cleanup history i item"
    and fates4: "fates s4 = fates s"
    using deleteHistoryItem_found[OF load found] by blast
  define new where "new = filter (\<lambda>h. id' h \<noteq> i) history"
  define ok where "ok = fst (saveHistory s4 userId new)"
  define s' where "s' = snd (saveHistory s4 userId new)"
  have pair: "(ok, s') = saveHistory s4 userId new"
    by (simp add: ok_def s'_def)
  have sent1: "sent s1 = sent s @ [GetObject (getHistoryFileKey userId)]"
    using loadHistory_state(1)[OF load] .
  have sent': "sent s' = sent s4 @ [PutObject (getHistoryFileKey userId) (Text (JSON_stringify (toJSON new))) ''application/json'']"
    by (simp add: s'_def snd_saveHistory sent_send)
  have ok: "ok = (fates s (length (sent s') - 1) = Served)"
    by (simp add: ok_def fst_saveHistory fates4 sent')
  have stored: "objects s' (getHistoryFileKey userId) =
      Some \<lparr>Body = Text (JSON_stringify (toJSON new)), ContentType = ''application/json''\<rparr>" if ok
    using saveHistory_True(1)[of s4 userId new s'] pair that by simp
  show ?thesis
    apply (rule exI[of _ ok], rule exI[of _ s'], rule exI[of _ s4])
    using d pair ok stored by (simp add: new_def[symmetric] sent' sent4 sent1)
qed

text \<open>
  The reference count of \<open>deleteHistoryItem\<close>, as the code takes it. Let \<open>item\<close> be the
  item that the call selects for the given id (the first one of the loaded history with that
  id; where ids are unique it is the item with that id, see \<open>find_by_unique_id\<close>) and let its
  \<open>inputImageKey\<close> be the non-empty key \<open>k\<close>. The requests of the call are: the read of the
  history document, the deletion of the output image, the deletion of its thumbnail, then
  the deletion of \<open>k\<close> exactly when no item with another id has \<open>k\<close> as its
  \<open>inputImageKey\<close>, then the save of the remaining items. Only the field
  \<open>inputImageKey\<close> of the other items is read; their \<open>inputImageKeys\<close> are not.
\<close>

lemma deleteHistoryItem_reference_count:
  assumes "loadHistory s userId = (Some history, s1)"
    and "find (\<lambda>h. id' h = i) history = Some item"
    and "inputImageKey item = Some k" and "k \<noteq> []"
  shows "\<exists>ok s'. deleteHistoryItem s userId i = Some (ok, s') \<and>
           drop (length (sent s)) (sent s') =
             [GetObject (getHistoryFileKey userId), DeleteObject (imageKey item),
              DeleteObject (getThumbnailKeyFromImageKey (imageKey item))]
             @ (if \<exists>h\<in>set history. id' h \<noteq> i \<and> inputImageKey h = Some k then []
                else [DeleteObject k])
             @ [PutObject (getHistoryFileKey userId)
                  (Text (JSON_stringify (toJSON (filter (\<lambda>h. id' h \<noteq> i) history))))
                  ''application/json'']
         \<and> (k \<noteq> imageKey item \<and> k \<noteq> getThumbnailKeyFromImageKey (imageKey item) \<longrightarrow>
              (DeleteObject k \<in> set (drop (length (sent s)) (sent s'))
                 \<longleftrightarrow> \<not> (\<exists>h\<in>set history. id' h \<noteq> i \<and> inputImageKey h = Some k)))"
proof -
  have rc: "reference_cleanup history i item =
      (if \<exists>h\<in>set history. id' h \<noteq> i \<and> inputImageKey h = Some k then [] else [DeleteObject k])"
    using assms(3,4) by (simp add: reference_cleanup_def)
  obtain ok s' where "deleteHistoryItem s userId i = Some (ok, s')"
    and "drop (length (sent s)) (sent s') =
              [GetObject (getHistoryFileKey userId), DeleteObject (imageKey item),
               DeleteObject (getThumbnailKeyFromImageKey (imageKey item))]
              @ reference_cleanup history i item
              @ [PutObject (getHistoryFileKey userId)
                   (Text (JSON_stringify (toJSON (filter (\<lambda>h. id' h \<noteq> i) history))))
                   ''application/json'']"
    using deleteHistoryItem_requests[OF assms(1,2)] by blast
  then show ?thesis
    by (intro exI[of _ ok] exI[of _ s']) (auto simp add: rc)
qed


lemma example_thumbnail:
  "getThumbnailKeyFromImageKey (imageKey (example_item i k)) = ''images/u1/'' @ i @ ''_thumb.jpg''"
  using thumbnail_key_jpg[of "''.jpg''" "''images/u1/'' @ i"]
  by (simp add: jpg_endings_def example_item_def)

text \<open>
  Two items that share their only reference image: deleting the first keeps the blob,
  deleting the last one deletes it.
\<close>

lemma deleteHistoryItem_reference_count_example:
  "(let K = ''inputs/u1/h.jpg''; A = example_item ''a'' (Some K); B = example_item ''b'' (Some K);
        W = example_store [A, B] (\<lambda>n. Served); V = example_store [B] (\<lambda>n. Served)
    in loadHistory W ''u1'' = (Some [A, B], snd (loadHistory W ''u1'')) \<and>
       find (\<lambda>h. id' h = ''a'') [A, B] = Some A \<and> inputImageKey A = Some K \<and> K \<noteq> [] \<and>
       (\<exists>ok s'. deleteHistoryItem W ''u1'' ''a'' = Some (ok, s') \<and>
          DeleteObject K \<notin> set (drop (length (sent W)) (sent s'))) \<and>
       loadHistory V ''u1'' = (Some [B], snd (loadHistory V ''u1'')) \<and>
       find (\<lambda>h. id' h = ''b'') [B] = Some B \<and> inputImageKey B = Some K \<and>
       (\<exists>ok s'. deleteHistoryItem V ''u1'' ''b'' = Some (ok, s') \<and>
          DeleteObject K \<in> set (drop (length (sent V)) (sent s'))))"
proof -
  define K where "K = ''inputs/u1/h.jpg''"
  define A where "A = example_item ''a'' (Some K)"
  define B where "B = example_item ''b'' (Some K)"
  define W where "W = example_store [A, B] (\<lambda>n. Served)"
  define V where "V = example_store [B] (\<lambda>n. Served)"
  have lW: "loadHistory W ''u1'' = (Some [A, B], snd (loadHistory W ''u1''))"
    unfolding W_def by (rule loadHistory_example_store) (simp_all add: A_def B_def isSafeInteger_example)
  have lV: "loadHistory V ''u1'' = (Some [B], snd (loadHistory V ''u1''))"
    unfolding V_def by (rule loadHistory_example_store) (simp_all add: B_def isSafeInteger_example)
  have fA: "find (\<lambda>h. id' h = ''a'') [A, B] = Some A"
    by (simp add: A_def example_item_def)
  have fB: "find (\<lambda>h. id' h = ''b'') [B] = Some B"
    by (simp add: B_def example_item_def)
  have kA: "inputImageKey A = Some K" and kB: "inputImageKey B = Some K"
    by (simp_all add: A_def B_def example_item_def)
  have ne: "K \<noteq> []" by (simp add: K_def)
  have aliasA: "K \<noteq> imageKey A \<and> K \<noteq> getThumbnailKeyFromImageKey (imageKey A)"
    unfolding A_def example_thumbnail by (simp add: K_def example_item_def)
  have aliasB: "K \<noteq> imageKey B \<and> K \<noteq> getThumbnailKeyFromImageKey (imageKey B)"
    unfolding B_def example_thumbnail by (simp add: K_def example_item_def)
  have refA: "\<exists>h\<in>set [A, B]. id' h \<noteq> ''a'' \<and> inputImageKey h = Some K"
    by (simp add: A_def B_def example_item_def)
  have refB: "\<not> (\<exists>h\<in>set [B]. id' h \<noteq> ''b'' \<and> inputImageKey h = Some K)"
    by (simp add: B_def example_item_def)
  have 1: "\<exists>ok s'. deleteHistoryItem W ''u1'' ''a'' = Some (ok, s') \<and>
          DeleteObject K \<notin> set (drop (length (sent W)) (sent s'))"
    using deleteHistoryItem_reference_count[OF lW fA kA ne] aliasA refA by blast
  have 2: "\<exists>ok s'. deleteHistoryItem V ''u1'' ''b'' = Some (ok, s') \<and>
          DeleteObject K \<in> set (drop (length (sent V)) (sent s'))"
    using deleteHistoryItem_reference_count[OF lV fB kB ne] aliasB refB by blast
  show ?thesis
    using lW lV fA fB kA kB ne 1 2
    unfolding Let_def K_def[symmetric] A_def[symmetric] B_def[symmetric] W_def[symmetric] V_def[symmetric]
    by blast
qed


lemma posted_thumbnail:
  "getThumbnailKeyFromImageKey (imageKey (posted_item i ks hs)) = ''images/u1/'' @ i @ ''_thumb.jpg''"
  using thumbnail_key_jpg[of "''.jpg''" "''images/u1/'' @ i"]
  by (simp add: jpg_endings_def posted_item_def)

text \<open>
  Claim C1. The claim is that \<open>deleteHistoryItem\<close> deletes the blob at the
  \<open>inputImageKey\<close> of the deleted item if and only if no other remaining item of the history
  references that key, and the comment at r2.ts:313 says the same. The code breaks it:
  the scan at r2.ts:315 compares the key with the \<open>inputImageKey\<close> of the other items only,
  while an item written by the history route references every key of its \<open>inputImageKeys\<close>
  (\<open>allInputKeys\<close>) and mirrors only the first of them into \<open>inputImageKey\<close>.

  In the history below item \<open>a\<close> was posted with the reference images \<open>K2\<close>, \<open>K1\<close> and item
  \<open>b\<close> with \<open>K1\<close>; the store holds both blobs and serves every request. Deleting \<open>b\<close>
  succeeds and sends the deletion of \<open>K1\<close>: afterwards the blob at \<open>K1\<close> is gone, the history is
  \<open>[a]\<close>, and \<open>a\<close> still references \<open>K1\<close>.
\<close>

theorem deleteHistoryItem_deletes_referenced_key:
  "(let K1 = ''inputs/u1/h1.jpg''; K2 = ''inputs/u1/h2.jpg'';
        A = posted_item ''a'' [K2, K1] [''h2'', ''h1''];
        B = posted_item ''b'' [K1] [''h1''];
        W = stocked_store [B, A] [K1, K2]
    in fst (loadHistory W ''u1'') = Some [B, A] \<and>
       objects W K1 = Some \<lparr>Body = Bytes [1, 2, 3], ContentType = ''image/jpeg''\<rparr> \<and>
       (\<exists>s'. deleteHistoryItem W ''u1'' ''b'' = Some (True, s') \<and>
          sent s' =
            [GetObject ''history/u1/history.json'', DeleteObject ''images/u1/b.jpg'',
             DeleteObject ''images/u1/b_thumb.jpg'', DeleteObject K1,
             PutObject ''history/u1/history.json'' (Text (JSON_stringify (toJSON [A])))
               ''application/json''] \<and>
          objects s' K1 = None \<and>
          fst (loadHistory s' ''u1'') = Some [A] \<and>
          K1 \<in> set (allInputKeys A)))"
proof -
  define K1 where "K1 = ''inputs/u1/h1.jpg''"
  define K2 where "K2 = ''inputs/u1/h2.jpg''"
  define A where "A = posted_item ''a'' [K2, K1] [''h2'', ''h1'']"
  define B where "B = posted_item ''b'' [K1] [''h1'']"
  define W where "W = stocked_store [B, A] [K1, K2]"
  define hk where "hk = ''history/u1/history.json''"
  have hk: "getHistoryFileKey ''u1'' = hk"
    by (simp add: getHistoryFileKey_def hk_def)
  have safe: "\<forall>h\<in>set [B, A]. isSafeInteger (timestamp h)"
    by (simp add: A_def B_def posted_item_def isSafeInteger_def)
  have doc: "objects W hk =
      Some \<lparr>Body = Text (JSON_stringify (toJSON [B, A])), ContentType = ''application/json''\<rparr>"
    by (simp add: W_def stocked_store_def example_store_def hk K1_def K2_def hk_def)
  have fW: "fates W = (\<lambda>n. Served)" and sW: "sent W = []"
    by (simp_all add: W_def stocked_store_def)
  have load: "fst (loadHistory W ''u1'') = Some [B, A]"
    by (rule loadHistory_stored[where ct = "''application/json''"]) (simp_all add: hk doc fW safe)
  define s1 where "s1 = snd (loadHistory W ''u1'')"
  have l: "loadHistory W ''u1'' = (Some [B, A], s1)"
    using load by (simp add: s1_def prod_eq_iff)
  have blob: "objects W K1 = Some \<lparr>Body = Bytes [1, 2, 3], ContentType = ''image/jpeg''\<rparr>"
    by (simp add: W_def stocked_store_def)
  have found: "find (\<lambda>h. id' h = ''b'') [B, A] = Some B"
    by (simp add: B_def posted_item_def)
  have keyB: "inputImageKey B = Some K1" and keyA: "inputImageKey A = Some K2"
    and idA: "id' A = ''a''" and idB: "id' B = ''b''" and imB: "imageKey B = ''images/u1/b.jpg''"
    by (simp_all add: A_def B_def posted_item_def)
  have ne: "K1 \<noteq> []" "K2 \<noteq> K1" "K1 \<noteq> hk" "K1 \<noteq> ''images/u1/b.jpg''"
    by (simp_all add: K1_def K2_def hk_def)
  have "getThumbnailKeyFromImageKey (imageKey B) = ''images/u1/b_thumb.jpg''"
    unfolding B_def posted_thumbnail by simp
  then have thumb: "getThumbnailKeyFromImageKey ''images/u1/b.jpg'' = ''images/u1/b_thumb.jpg''"
    by (simp add: imB)
  have s1: "s1 = W\<lparr>sent := [GetObject hk]\<rparr>"
    by (simp add: s1_def snd_loadHistory hk send_def Let_def fW sW doc)
  define s' where "s' = snd (saveHistory (snd (deleteImage (snd (deleteImage (snd (deleteImage s1
      ''images/u1/b.jpg'')) ''images/u1/b_thumb.jpg'')) K1)) ''u1'' [A])"
  have del: "deleteHistoryItem W ''u1'' ''b'' = Some (True, s')"
    apply (simp add: deleteHistoryItem_def l found Let_def keyB keyA idA idB ne thumb imB)
    apply (simp add: s'_def prod_eq_iff fst_saveHistory snd_deleteImage fates_send sent_send s1 fW)
    done
  have sent': "sent s' = [GetObject hk, DeleteObject ''images/u1/b.jpg'',
       DeleteObject ''images/u1/b_thumb.jpg'', DeleteObject K1,
       PutObject hk (Text (JSON_stringify (toJSON [A]))) ''application/json'']"
    by (simp add: s'_def snd_saveHistory snd_deleteImage sent_send s1 hk)
  have fates': "fates s' = (\<lambda>n. Served)"
    by (simp add: s'_def snd_saveHistory snd_deleteImage fates_send s1 fW)
  have gone: "objects s' K1 = None"
    using ne by (simp add: s'_def snd_saveHistory snd_deleteImage objects_send fates_send sent_send s1 fW hk)
  have doc': "objects s' hk =
      Some \<lparr>Body = Text (JSON_stringify (toJSON [A])), ContentType = ''application/json''\<rparr>"
    by (simp add: s'_def snd_saveHistory snd_deleteImage objects_send fates_send sent_send s1 fW hk)
  have load': "fst (loadHistory s' ''u1'') = Some [A]"
    by (rule loadHistory_stored[where ct = "''application/json''"])
       (simp_all add: hk doc' fates' A_def posted_item_def isSafeInteger_def)
  have ref: "K1 \<in> set (allInputKeys A)"
    by (simp add: allInputKeys_def A_def posted_item_def)
  show ?thesis
    unfolding Let_def K1_def[symmetric] K2_def[symmetric] A_def[symmetric] B_def[symmetric]
      W_def[symmetric]
    using load blob del sent' gone load' ref by (auto simp add: hk_def)
qed

text \<open>
  Claim C5. When the loaded history has an item with the given id, \<open>deleteHistoryItem\<close>
  returns (it never throws), whatever the fate of each of its blob deletions: its result is
  the result of a final \<open>saveHistory\<close> of the history without the items of that id; this save
  is the last request sent, its body does not depend on the deletions, its outcome alone
  decides the result, and on success the stored document is that remainder.
\<close>

theorem deleteHistoryItem_best_effort:
  assumes "loadHistory s userId = (Some history, s1)"
    and "\<exists>h\<in>set history. id' h = i"
  shows "\<exists>ok s' s4. deleteHistoryItem s userId i = Some (ok, s') \<and>
           (ok, s') = saveHistory s4 userId (filter (\<lambda>h. id' h \<noteq> i) history) \<and>
           last (sent s') = PutObject (getHistoryFileKey userId)
             (Text (JSON_stringify (toJSON (filter (\<lambda>h. id' h \<noteq> i) history)))) ''application/json'' \<and>
           ok = (fates s (length (sent s') - 1) = Served) \<and>
           (ok \<longrightarrow> objects s' (getHistoryFileKey userId) =
              Some \<lparr>Body = Text (JSON_stringify (toJSON (filter (\<lambda>h. id' h \<noteq> i) history))),
                    ContentType = ''application/json''\<rparr>)"
proof -
  obtain item where found: "find (\<lambda>h. id' h = i) history = Some item"
    using assms(2) find_None_ids[of i history] by (cases "find (\<lambda>h. id' h = i) history") auto
  obtain ok s' s4 where r: "deleteHistoryItem s userId i = Some (ok, s')"
    "(ok, s') = saveHistory s4 userId (filter (\<lambda>h. id' h \<noteq> i) history)"
    "drop (length (sent s)) (sent s') =
              [GetObject (getHistoryFileKey userId), DeleteObject (imageKey item),
               DeleteObject (getThumbnailKeyFromImageKey (imageKey item))]
              @ reference_cleanup history i item
              @ [PutObject (getHistoryFileKey userId)
                   (Text (JSON_stringify (toJSON (filter (\<lambda>h. id' h \<noteq> i) history))))
                   ''application/json'']"
    "ok = (fates s (length (sent s') - 1) = Served)"
    "ok \<longrightarrow> objects s' (getHistoryFileKey userId) =
                Some \<lparr>Body = Text (JSON_stringify (toJSON (filter (\<lambda>h. id' h \<noteq> i) history))),
                      ContentType = ''application/json''\<rparr>"
    using deleteHistoryItem_requests[OF assms(1) found] by blast
  have "last (drop (length (sent s)) (sent s')) = PutObject (getHistoryFileKey userId)
             (Text (JSON_stringify (toJSON (filter (\<lambda>h. id' h \<noteq> i) history)))) ''application/json''"
    unfolding r(3) by simp
  moreover have "drop (length (sent s)) (sent s') \<noteq> []"
    unfolding r(3) by simp
  ultimately have "last (sent s') = PutObject (getHistoryFileKey userId)
             (Text (JSON_stringify (toJSON (filter (\<lambda>h. id' h \<noteq> i) history)))) ''application/json''"
    by (metis drop_eq_Nil last_drop not_le)
  with r show ?thesis by blast
qed

theorem deleteHistoryItem_best_effort_witness:
  "(let A = example_item ''a'' (Some ''inputs/u1/h.jpg''); W = example_store [A] deletes_dropped
    in loadHistory W ''u1'' = (Some [A], snd (loadHistory W ''u1'')) \<and>
       (\<exists>h\<in>set [A]. id' h = ''a'') \<and>
       (\<exists>s'. deleteHistoryItem W ''u1'' ''a'' = Some (True, s') \<and>
          objects s' (getHistoryFileKey ''u1'') =
            Some \<lparr>Body = Text (JSON_stringify (toJSON [])), ContentType = ''application/json''\<rparr>))"
proof -
  define A where "A = example_item ''a'' (Some ''inputs/u1/h.jpg'')"
  define W where "W = example_store [A] deletes_dropped"
  have l: "loadHistory W ''u1'' = (Some [A], snd (loadHistory W ''u1''))"
    unfolding W_def by (rule loadHistory_example_store) (simp_all add: A_def isSafeInteger_example deletes_dropped_def)
  have e: "\<exists>h\<in>set [A]. id' h = ''a''"
    by (simp add: A_def example_item_def)
  have flt: "filter (\<lambda>h. id' h \<noteq> ''a'') [A] = []"
    by (simp add: A_def example_item_def)
  obtain ok s' s4 where r: "deleteHistoryItem W ''u1'' ''a'' = Some (ok, s')"
    "(ok, s') = saveHistory s4 ''u1'' []"
    "last (sent s') = PutObject (getHistoryFileKey ''u1'') (Text (JSON_stringify (toJSON []))) ''application/json''"
    "ok = (fates W (length (sent s') - 1) = Served)"
    "ok \<longrightarrow> objects s' (getHistoryFileKey ''u1'') =
        Some \<lparr>Body = Text (JSON_stringify (toJSON [])), ContentType = ''application/json''\<rparr>"
    using deleteHistoryItem_best_effort[OF l e] unfolding flt by blast
  have f: "find (\<lambda>h. id' h = ''a'') [A] = Some A"
    by (simp add: A_def example_item_def)
  have rc: "reference_cleanup [A] ''a'' A = [DeleteObject ''inputs/u1/h.jpg'']"
    by (simp add: reference_cleanup_def A_def example_item_def)
  have "length (drop (length (sent W)) (sent s')) = 5"
    using deleteHistoryItem_requests[OF l f] r(1) by (auto simp add: rc)
  then have "length (sent s') = 5"
    by (simp add: W_def example_store_def)
  then have "ok"
    using r(4) by (simp add: W_def example_store_def deletes_dropped_def)
  with r(1,5) have "\<exists>s'. deleteHistoryItem W ''u1'' ''a'' = Some (True, s') \<and>
          objects s' (getHistoryFileKey ''u1'') =
            Some \<lparr>Body = Text (JSON_stringify (toJSON [])), ContentType = ''application/json''\<rparr>"
    by auto
  with l e show ?thesis
    unfolding Let_def A_def[symmetric] W_def[symmetric] by simp
qed


text \<open>
  Claim C10. For an image key that does not end in \<^verbatim>\<open>.jpg\<close> (in any of its eight
  spellings) the thumbnail key is the key itself. So \<open>deleteHistoryItem\<close> on an item with
  such an image key sends the deletion of that key twice, and every deletion it sends is for
  the image key or for the item's \<open>inputImageKey\<close>: no separate thumbnail key is targeted.
\<close>

theorem thumbnail_key_without_jpg:
  assumes "\<forall>e\<in>set jpg_endings. \<not> suffix e key"
  shows "getThumbnailKeyFromImageKey key = key \<and>
         (\<forall>s userId i history s1 item.
            loadHistory s userId = (Some history, s1) \<and>
            find (\<lambda>h. id' h = i) history = Some item \<and> imageKey item = key \<longrightarrow>
            (\<exists>ok s'. deleteHistoryItem s userId i = Some (ok, s') \<and>
               take 3 (drop (length (sent s)) (sent s')) =
                 [GetObject (getHistoryFileKey userId), DeleteObject key, DeleteObject key] \<and>
               (\<forall>k. DeleteObject k \<in> set (drop (length (sent s)) (sent s')) \<longrightarrow>
                  k = key \<or> inputImageKey item = Some k)))"
proof (intro conjI allI impI)
  show same: "getThumbnailKeyFromImageKey key = key"
    using assms by (rule thumbnail_key_unchanged)
  fix s userId i history s1 item
  assume a: "loadHistory s userId = (Some history, s1) \<and>
            find (\<lambda>h. id' h = i) history = Some item \<and> imageKey item = key"
  obtain ok s' where r: "deleteHistoryItem s userId i = Some (ok, s')"
    "drop (length (sent s)) (sent s') =
              [GetObject (getHistoryFileKey userId), DeleteObject (imageKey item),
               DeleteObject (getThumbnailKeyFromImageKey (imageKey item))]
              @ reference_cleanup history i item
              @ [PutObject (getHistoryFileKey userId)
                   (Text (JSON_stringify (toJSON (filter (\<lambda>h. id' h \<noteq> i) history))))
                   ''application/json'']"
    using deleteHistoryItem_requests[of s userId history s1 i item] a by blast
  have rc: "DeleteObject k \<in> set (reference_cleanup history i item) \<Longrightarrow> inputImageKey item = Some k" for k
    by (auto simp add: reference_cleanup_def split: option.splits if_splits)
  show "\<exists>ok s'. deleteHistoryItem s userId i = Some (ok, s') \<and>
               take 3 (drop (length (sent s)) (sent s')) =
                 [GetObject (getHistoryFileKey userId), DeleteObject key, DeleteObject key] \<and>
               (\<forall>k. DeleteObject k \<in> set (drop (length (sent s)) (sent s')) \<longrightarrow>
                  k = key \<or> inputImageKey item = Some k)"
    using a same rc by (intro exI[of _ ok] exI[of _ s']) (auto simp add: r)
qed

theorem thumbnail_key_without_jpg_witness:
  "(let key = ''images/u1/a.png''; A = (example_item ''a'' None)\<lparr>imageKey := key\<rparr>;
        W = example_store [A] (\<lambda>n. Served)
    in list_all (\<lambda>e. \<not> suffix e key) jpg_endings \<and>
       loadHistory W ''u1'' = (Some [A], snd (loadHistory W ''u1'')) \<and>
       find (\<lambda>h. id' h = ''a'') [A] = Some A \<and> imageKey A = key \<and>
       getThumbnailKeyFromImageKey key = key \<and>
       (\<exists>ok s'. deleteHistoryItem W ''u1'' ''a'' = Some (ok, s') \<and>
          take 3 (drop (length (sent W)) (sent s')) =
            [GetObject (getHistoryFileKey ''u1''), DeleteObject key, DeleteObject key]))"
proof -
  define key where "key = ''images/u1/a.png''"
  define A where "A = (example_item ''a'' None)\<lparr>imageKey := key\<rparr>"
  define W where "W = example_store [A] (\<lambda>n. Served)"
  have n: "\<forall>e\<in>set jpg_endings. \<not> suffix e key"
    by (simp add: jpg_endings_def key_def suffix_Cons)
  have l: "loadHistory W ''u1'' = (Some [A], snd (loadHistory W ''u1''))"
    unfolding W_def by (rule loadHistory_example_store) (simp_all add: A_def example_item_def isSafeInteger_def)
  have f: "find (\<lambda>h. id' h = ''a'') [A] = Some A \<and> imageKey A = key"
    by (simp add: A_def example_item_def)
  from thumbnail_key_without_jpg[OF n] l f
  have "getThumbnailKeyFromImageKey key = key \<and>
       (\<exists>ok s'. deleteHistoryItem W ''u1'' ''a'' = Some (ok, s') \<and>
          take 3 (drop (length (sent W)) (sent s')) =
            [GetObject (getHistoryFileKey ''u1''), DeleteObject key, DeleteObject key])"
    by blast
  with n l f show ?thesis
    unfolding Let_def key_def[symmetric] A_def[symmetric] W_def[symmetric]
    by (simp add: list_all_iff)
qed

text \<open>
  Claim C8. For items whose timestamps are safe integers: when \<open>saveHistory\<close> reports success
  and the read of the following \<open>loadHistory\<close> for the same user is served, the load returns
  the saved list, the same items in the same order. The proof goes through the text of the
  document: \<open>JSON.parse\<close> of \<open>JSON.stringify\<close> gives the value back.
\<close>

theorem save_then_load:
  assumes "\<forall>h\<in>set history. isSafeInteger (timestamp h)"
    and "saveHistory s userId history = (True, s1)"
    and "fates s1 (length (sent s1)) = Served"
  shows "fst (loadHistory s1 userId) = Some history"
  using saveHistory_True(1)[OF assms(2)] assms(3) assms(1) by (rule loadHistory_stored)

theorem save_then_load_witness:
  "(let H = [example_item ''b'' (Some ''inputs/u1/h.jpg''), example_item ''a'' None];
        W = example_store [] (\<lambda>n. Served); W1 = snd (saveHistory W ''u1'' H)
    in list_all (\<lambda>h. isSafeInteger (timestamp h)) H \<and>
       saveHistory W ''u1'' H = (True, W1) \<and>
       fates W1 (length (sent W1)) = Served \<and>
       fst (loadHistory W1 ''u1'') = Some H)"
proof -
  define H where "H = [example_item ''b'' (Some ''inputs/u1/h.jpg''), example_item ''a'' None]"
  define W where "W = example_store [] (\<lambda>n. Served)"
  define W1 where "W1 = snd (saveHistory W ''u1'' H)"
  have safe: "\<forall>h\<in>set H. isSafeInteger (timestamp h)"
    by (simp add: H_def isSafeInteger_example)
  have "fst (saveHistory W ''u1'' H) = True"
    by (simp add: fst_saveHistory W_def example_store_def)
  then have save: "saveHistory W ''u1'' H = (True, W1)"
    unfolding W1_def by (metis prod.collapse)
  have served: "fates W1 (length (sent W1)) = Served"
    by (simp add: W1_def snd_saveHistory fates_send W_def example_store_def)
  from save_then_load[OF safe save served] safe save served show ?thesis
    unfolding Let_def H_def[symmetric] W_def[symmetric] W1_def[symmetric]
    by (simp add: list_all_iff)
qed

section \<open>Adding a history item\<close>

lemma addHistoryItem_requests:
  assumes "loadHistory s userId = (Some history, s1)"
  shows "\<exists>ok s'. addHistoryItem s userId item = Some (ok, s') \<and>
           (ok, s') = saveHistory s1 userId (take 100 (item # history)) \<and>
           drop (length (sent s)) (sent s') =
             [GetObject (getHistoryFileKey userId),
              PutObject (getHistoryFileKey userId)
                (Text (JSON_stringify (toJSON (take 100 (item # history))))) ''application/json''] \<and>
           fates s' = fates s \<and>
           ok = (fates s (Suc (length (sent s))) = Served)"
proof -
  define ok where "ok = fst (saveHistory s1 userId (take 100 (item # history)))"
  define s' where "s' = snd (saveHistory s1 userId (take 100 (item # history)))"
  have pair: "(ok, s') = saveHistory s1 userId (take 100 (item # history))"
    by (simp add: ok_def s'_def)
  have a: "addHistoryItem s userId item = Some (ok, s')"
    using assms pair by (simp add: addHistoryItem_def Let_def)
  have st: "sent s1 = sent s @ [GetObject (getHistoryFileKey userId)]" "fates s1 = fates s"
    using loadHistory_state(1,3)[OF assms] by simp_all
  have "sent s' = sent s1 @ [PutObject (getHistoryFileKey userId)
                (Text (JSON_stringify (toJSON (take 100 (item # history))))) ''application/json'']"
    "fates s' = fates s1"
    by (simp_all add: s'_def snd_saveHistory sent_send fates_send)
  moreover have "ok = (fates s (Suc (length (sent s))) = Served)"
    by (simp add: ok_def fst_saveHistory st)
  ultimately show ?thesis
    using a pair st by (intro exI[of _ ok] exI[of _ s']) simp
qed

lemma addHistoryItem_served:
  assumes served: "\<forall>n. fates s n = Served"
    and load: "fst (loadHistory s userId) = Some history"
    and safe: "\<forall>h\<in>set history. isSafeInteger (timestamp h)" "isSafeInteger (timestamp item)"
  shows "\<exists>s'. addHistoryItem s userId item = Some (True, s') \<and> fates s' = fates s \<and>
           objects s' (getHistoryFileKey userId) =
             Some \<lparr>Body = Text (JSON_stringify (toJSON (take 100 (item # history)))),
                   ContentType = ''application/json''\<rparr> \<and>
           fst (loadHistory s' userId) = Some (take 100 (item # history))"
proof -
  have l: "loadHistory s userId = (Some history, snd (loadHistory s userId))"
    using load by (metis prod.collapse)
  obtain ok s' where r: "addHistoryItem s userId item = Some (ok, s')"
    "(ok, s') = saveHistory (snd (loadHistory s userId)) userId (take 100 (item # history))"
    "fates s' = fates s" "ok = (fates s (Suc (length (sent s))) = Served)"
    using addHistoryItem_requests[OF l, of item] by blast
  have ok: "ok" using r(4) served by simp
  have sv: "saveHistory (snd (loadHistory s userId)) userId (take 100 (item # history)) = (True, s')"
    using r(2) ok by simp
  have obj: "objects s' (getHistoryFileKey userId) =
             Some \<lparr>Body = Text (JSON_stringify (toJSON (take 100 (item # history)))),
                   ContentType = ''application/json''\<rparr>"
    using saveHistory_True(1)[OF sv] .
  have safe': "\<forall>h\<in>set (take 100 (item # history)). isSafeInteger (timestamp h)"
    using safe by (auto dest: in_set_takeD)
  have "fst (loadHistory s' userId) = Some (take 100 (item # history))"
    using obj _ safe' by (rule loadHistory_stored) (simp add: r(3) served)
  with r(1) ok obj r(3) show ?thesis by simp
qed

lemma take_append_take: "take n (xs @ take n ys) = take n (xs @ ys)"
  by (simp add: min_def) 

lemma addHistoryItems_served:
  assumes "\<forall>n. fates s n = Served"
    and "fst (loadHistory s userId) = Some history"
    and "\<forall>h\<in>set history. isSafeInteger (timestamp h)"
    and "\<forall>h\<in>set items. isSafeInteger (timestamp h)"
    and "length history \<le> 100"
  shows "\<exists>oks s'. addHistoryItems s userId items = Some (oks, s') \<and> list_all (\<lambda>ok. ok) oks \<and>
           length oks = length items \<and>
           fates s' = fates s \<and>
           (items \<noteq> [] \<longrightarrow> objects s' (getHistoryFileKey userId) =
             Some \<lparr>Body = Text (JSON_stringify (toJSON (take 100 (rev items @ history)))),
                   ContentType = ''application/json''\<rparr>) \<and>
           fst (loadHistory s' userId) = Some (take 100 (rev items @ history))"
  using assms
proof (induction items arbitrary: s history)
  case Nil
  show ?case
    using Nil.prems(2,5) by (intro exI[of _ "[]"] exI[of _ s]) simp
next
  case (Cons item items)
  define h1 where "h1 = take 100 (item # history)"
  obtain s1 where 1: "addHistoryItem s userId item = Some (True, s1)" "fates s1 = fates s"
    "objects s1 (getHistoryFileKey userId) =
       Some \<lparr>Body = Text (JSON_stringify (toJSON h1)), ContentType = ''application/json''\<rparr>"
    "fst (loadHistory s1 userId) = Some h1"
    unfolding h1_def
    using addHistoryItem_served[OF Cons.prems(1,2,3), of item] Cons.prems(4) by auto
  have safe1: "\<forall>h\<in>set h1. isSafeInteger (timestamp h)"
    unfolding h1_def using Cons.prems(3,4) by (auto dest: in_set_takeD)
  have len1: "length h1 \<le> 100"
    by (simp add: h1_def)
  have served1: "\<forall>n. fates s1 n = Served"
    using Cons.prems(1) 1(2) by simp
  have safe2: "\<forall>h\<in>set items. isSafeInteger (timestamp h)"
    using Cons.prems(4) by simp
  obtain oks s' where 2: "addHistoryItems s1 userId items = Some (oks, s')" "list_all (\<lambda>ok. ok) oks"
    "length oks = length items" "fates s' = fates s1"
    "items \<noteq> [] \<longrightarrow> objects s' (getHistoryFileKey userId) =
             Some \<lparr>Body = Text (JSON_stringify (toJSON (take 100 (rev items @ h1)))),
                   ContentType = ''application/json''\<rparr>"
    "fst (loadHistory s' userId) = Some (take 100 (rev items @ h1))"
    using Cons.IH[OF served1 1(4) safe1 safe2 len1] by blast
  have t: "take 100 (rev items @ h1) = take 100 (rev (item # items) @ history)"
    unfolding h1_def using take_append_take[of 100 "rev items" "item # history"] by simp
  have e: "s' = s1" "take 100 (rev (item # items) @ history) = h1" if "items = []"
    using 2(1) that by (simp_all add: h1_def)
  have call: "addHistoryItems s userId (item # items) = Some (True # oks, s')"
    by (simp add: 1(1) 2(1))
  have obj: "objects s' (getHistoryFileKey userId) =
             Some \<lparr>Body = Text (JSON_stringify (toJSON (take 100 (rev (item # items) @ history)))),
                   ContentType = ''application/json''\<rparr>"
  proof (cases "items = []")
    case True
    then show ?thesis using e 1(3) by simp
  next
    case False
    then show ?thesis using 2(5) t by simp
  qed
  have "list_all (\<lambda>ok. ok) (True # oks)" "length (True # oks) = length (item # items)"
    "fates s' = fates s" "fst (loadHistory s' userId) = Some (take 100 (rev (item # items) @ history))"
    using 2(2,3,4,6) 1(2) t by simp_all
  with call obj show ?case by blast
qed

text \<open>
  Claim C2. Whatever history \<open>loadHistory\<close> returns, \<open>addHistoryItem\<close> saves the new item
  followed by that history, cut to its first 100 elements: the new item is at index 0 and at
  most 100 items are saved. And when every request is served, the history is empty at the
  start, and 101 items with distinct ids (and safe-integer timestamps) are added one after
  the other, every call succeeds and the stored list is the last 100 items added, newest
  first: its length is exactly 100 and the first item added is not in it.
\<close>

theorem addHistoryItem_newest_first_capped:
  "(loadHistory s userId = (Some history, s1) \<longrightarrow>
      (\<exists>ok s'. addHistoryItem s userId item = Some (ok, s') \<and>
         (ok, s') = saveHistory s1 userId (take 100 (item # history)) \<and>
         take 100 (item # history) ! 0 = item \<and> length (take 100 (item # history)) \<le> 100 \<and>
         drop (length (sent s)) (sent s') =
           [GetObject (getHistoryFileKey userId),
            PutObject (getHistoryFileKey userId)
              (Text (JSON_stringify (toJSON (take 100 (item # history))))) ''application/json''])) \<and>
   ((\<forall>n. fates s n = Served) \<and> fst (loadHistory s userId) = Some [] \<and> length items = 101 \<and>
    (\<forall>h\<in>set items. isSafeInteger (timestamp h)) \<and> distinct (map id' items) \<longrightarrow>
      (\<exists>oks s'. addHistoryItems s userId items = Some (oks, s') \<and> list_all (\<lambda>ok. ok) oks \<and>
         objects s' (getHistoryFileKey userId) =
           Some \<lparr>Body = Text (JSON_stringify (toJSON (rev (tl items)))),
                 ContentType = ''application/json''\<rparr> \<and>
         fst (loadHistory s' userId) = Some (rev (tl items)) \<and>
         length (rev (tl items)) = 100 \<and>
         hd items \<notin> set (rev (tl items)) \<and>
         id' (hd items) \<notin> id' ` set (rev (tl items))))"
proof (intro conjI impI)
  assume "loadHistory s userId = (Some history, s1)"
  from addHistoryItem_requests[OF this, of item]
  show "\<exists>ok s'. addHistoryItem s userId item = Some (ok, s') \<and>
         (ok, s') = saveHistory s1 userId (take 100 (item # history)) \<and>
         take 100 (item # history) ! 0 = item \<and> length (take 100 (item # history)) \<le> 100 \<and>
         drop (length (sent s)) (sent s') =
           [GetObject (getHistoryFileKey userId),
            PutObject (getHistoryFileKey userId)
              (Text (JSON_stringify (toJSON (take 100 (item # history))))) ''application/json'']"
    by auto
next
  assume a: "(\<forall>n. fates s n = Served) \<and> fst (loadHistory s userId) = Some [] \<and> length items = 101 \<and>
    (\<forall>h\<in>set items. isSafeInteger (timestamp h)) \<and> distinct (map id' items)"
  then obtain x xs where items: "items = x # xs" and len: "length xs = 100"
    by (cases items) auto
  have t: "take 100 (rev items @ []) = rev (tl items)"
  proof -
    have "rev items = rev xs @ [x]" by (simp add: items)
    then show ?thesis using len by (simp add: items)
  qed
  have ne: "items \<noteq> []" by (simp add: items)
  obtain oks s' where r: "addHistoryItems s userId items = Some (oks, s')" "list_all (\<lambda>ok. ok) oks"
    "items \<noteq> [] \<longrightarrow> objects s' (getHistoryFileKey userId) =
             Some \<lparr>Body = Text (JSON_stringify (toJSON (take 100 (rev items @ [])))),
                   ContentType = ''application/json''\<rparr>"
    "fst (loadHistory s' userId) = Some (take 100 (rev items @ []))"
    using addHistoryItems_served[of s userId "[]" items] a by auto
  have d: "id' x \<notin> id' ` set xs"
    using a by (simp add: items)
  then have d': "x \<notin> set xs" by blast
  show "\<exists>oks s'. addHistoryItems s userId items = Some (oks, s') \<and> list_all (\<lambda>ok. ok) oks \<and>
         objects s' (getHistoryFileKey userId) =
           Some \<lparr>Body = Text (JSON_stringify (toJSON (rev (tl items)))),
                 ContentType = ''application/json''\<rparr> \<and>
         fst (loadHistory s' userId) = Some (rev (tl items)) \<and>
         length (rev (tl items)) = 100 \<and>
         hd items \<notin> set (rev (tl items)) \<and>
         id' (hd items) \<notin> id' ` set (rev (tl items))"
    using r ne d d' len unfolding t by (intro exI[of _ oks] exI[of _ s']) (simp add: items)
qed


theorem addHistoryItem_newest_first_capped_witness:
  "loadHistory empty_store ''u1'' = (Some [], snd (loadHistory empty_store ''u1'')) \<and>
   (\<exists>ok s'. addHistoryItem empty_store ''u1'' (example_item ''a'' None) = Some (ok, s') \<and>
      drop (length (sent empty_store)) (sent s') =
        [GetObject (getHistoryFileKey ''u1''),
         PutObject (getHistoryFileKey ''u1'')
           (Text (JSON_stringify (toJSON [example_item ''a'' None]))) ''application/json'']) \<and>
   fates empty_store = (\<lambda>n. Served) \<and> length example_items = 101 \<and>
   list_all (\<lambda>h. isSafeInteger (timestamp h)) example_items \<and> distinct (map id' example_items) \<and>
   (\<exists>oks s'. addHistoryItems empty_store ''u1'' example_items = Some (oks, s') \<and>
      list_all (\<lambda>ok. ok) oks \<and>
      fst (loadHistory s' ''u1'') = Some (rev (tl example_items)) \<and>
      length (rev (tl example_items)) = 100 \<and>
      hd example_items \<notin> set (rev (tl example_items)))"
proof -
  have l0: "fst (loadHistory empty_store ''u1'') = Some []"
    by (rule loadHistory_absent) (simp add: empty_store_def)
  then have l: "loadHistory empty_store ''u1'' = (Some [], snd (loadHistory empty_store ''u1''))"
    by (metis prod.collapse)
  have f: "\<forall>n. fates empty_store n = Served"
    by (simp add: empty_store_def)
  have len: "length example_items = 101"
    by (simp add: example_items_def)
  have safe: "\<forall>h\<in>set example_items. isSafeInteger (timestamp h)"
    by (auto simp add: example_items_def isSafeInteger_example)
  have ids: "map id' example_items = map (\<lambda>n. replicate n CHR ''x'') [0..<101]"
    by (simp add: example_items_def example_item_def)
  have "inj_on (\<lambda>n. replicate n CHR ''x'') A" for A :: "nat set"
    by (rule inj_onI) (metis length_replicate)
  then have dist: "distinct (map id' example_items)"
    unfolding ids by (simp add: distinct_map)
  note inst = addHistoryItem_newest_first_capped[of empty_store "''u1''" "[]"
      "snd (loadHistory empty_store ''u1'')" "example_item ''a'' None" example_items]
  have A: "\<exists>ok s'. addHistoryItem empty_store ''u1'' (example_item ''a'' None) = Some (ok, s') \<and>
      drop (length (sent empty_store)) (sent s') =
        [GetObject (getHistoryFileKey ''u1''),
         PutObject (getHistoryFileKey ''u1'')
           (Text (JSON_stringify (toJSON [example_item ''a'' None]))) ''application/json'']"
    using inst l by auto
  have B: "\<exists>oks s'. addHistoryItems empty_store ''u1'' example_items = Some (oks, s') \<and>
      list_all (\<lambda>ok. ok) oks \<and>
      fst (loadHistory s' ''u1'') = Some (rev (tl example_items)) \<and>
      length (rev (tl example_items)) = 100 \<and>
      hd example_items \<notin> set (rev (tl example_items))"
    using inst f l0 len safe dist by blast
  have "fates empty_store = (\<lambda>n. Served)"
    by (simp add: empty_store_def)
  with l A B len safe dist show ?thesis
    by (simp add: list_all_iff)
qed

section \<open>Input images and the image route\<close>

lemma fst_doesObjectExist:
  "fst (doesObjectExist s k) = (fates s (length (sent s)) = Served \<and> objects s k \<noteq> None)"
proof -
  have "fst (doesObjectExist s k) = (case fst (send s (HeadObject k)) of Inr out \<Rightarrow> True | Inl e \<Rightarrow> False)"
    by (simp add: doesObjectExist_def split: prod.split sum.split)
  then show ?thesis
    by (simp add: fst_send split: option.split)
qed

lemma snd_doesObjectExist: "snd (doesObjectExist s k) = snd (send s (HeadObject k))"
  by (simp add: doesObjectExist_def split: prod.split sum.split)

lemma upload_unfold:
  "uploadInputImageWithDedup s imageData userId fb =
     (let parsed = parseImageData imageData fb;
          k = inputKey imageData userId fb;
          result = \<lparr>imageKey_of = k, imageHash_of = sha256_hex (buffer parsed),
                    reused = fst (doesObjectExist s k)\<rparr>;
          s1 = snd (doesObjectExist s k)
      in if \<not> fst (doesObjectExist s k) then
           (case fst (send s1 (PutObject k (Bytes (buffer parsed)) (mimeType parsed))) of
              Inl error \<Rightarrow> (Inl error, snd (send s1 (PutObject k (Bytes (buffer parsed)) (mimeType parsed))))
            | Inr out \<Rightarrow> (Inr result, snd (send s1 (PutObject k (Bytes (buffer parsed)) (mimeType parsed)))))
         else (Inr result, s1))"
  by (simp add: uploadInputImageWithDedup_def inputKey_def Let_def split: prod.split sum.split)

lemma upload_result_key:
  assumes "fst (uploadInputImageWithDedup s imageData userId fb) = Inr r"
  shows "imageKey_of r = inputKey imageData userId fb"
  using assms by (auto simp add: upload_unfold Let_def split: if_splits sum.splits)

lemma upload_absent:
  assumes "objects s (inputKey imageData userId fb) = None"
    and "fates s (length (sent s)) = Served" and "fates s (Suc (length (sent s))) = Served"
  shows "fst (uploadInputImageWithDedup s imageData userId fb) =
           Inr \<lparr>imageKey_of = inputKey imageData userId fb,
                imageHash_of = sha256_hex (buffer (parseImageData imageData fb)), reused = False\<rparr>"
    and "sent (snd (uploadInputImageWithDedup s imageData userId fb)) =
           sent s @ [HeadObject (inputKey imageData userId fb),
                     PutObject (inputKey imageData userId fb)
                       (Bytes (buffer (parseImageData imageData fb)))
                       (mimeType (parseImageData imageData fb))]"
    and "objects (snd (uploadInputImageWithDedup s imageData userId fb)) =
           (objects s)(inputKey imageData userId fb \<mapsto>
              \<lparr>Body = Bytes (buffer (parseImageData imageData fb)),
                ContentType = mimeType (parseImageData imageData fb)\<rparr>)"
    and "fates (snd (uploadInputImageWithDedup s imageData userId fb)) = fates s"
  using assms
  by (simp_all add: upload_unfold Let_def fst_doesObjectExist snd_doesObjectExist fst_send
      sent_send fates_send objects_send)

lemma upload_present:
  assumes "objects s (inputKey imageData userId fb) = Some obj"
    and "fates s (length (sent s)) = Served"
  shows "fst (uploadInputImageWithDedup s imageData userId fb) =
           Inr \<lparr>imageKey_of = inputKey imageData userId fb,
                imageHash_of = sha256_hex (buffer (parseImageData imageData fb)), reused = True\<rparr>"
    and "sent (snd (uploadInputImageWithDedup s imageData userId fb)) =
           sent s @ [HeadObject (inputKey imageData userId fb)]"
    and "objects (snd (uploadInputImageWithDedup s imageData userId fb)) = objects s"
  using assms
  by (simp_all add: upload_unfold Let_def fst_doesObjectExist snd_doesObjectExist
      sent_send objects_send)

text \<open>
  Claim C3. Start from a store that has no object at the key \<open>k\<close> computed for the payload
  and the user, and let the three requests of two successive calls with the same arguments
  be served. Then both calls return the key \<open>k\<close>; the first reports \<open>reused = False\<close> and
  sends the existence probe and the upload; the second reports \<open>reused = True\<close> and sends
  the probe only.
\<close>

theorem uploadInputImageWithDedup_twice:
  assumes "k = getInputImageKey userId (sha256_hex (buffer (parseImageData imageData fb)))
             (getExtensionFromMimeType (mimeType (parseImageData imageData fb)))"
    and "objects s k = None"
    and "fates s (length (sent s)) = Served" and "fates s (length (sent s) + 1) = Served"
    and "fates s (length (sent s) + 2) = Served"
    and "s1 = snd (uploadInputImageWithDedup s imageData userId fb)"
    and "s2 = snd (uploadInputImageWithDedup s1 imageData userId fb)"
  shows "fst (uploadInputImageWithDedup s imageData userId fb) =
           Inr \<lparr>imageKey_of = k, imageHash_of = sha256_hex (buffer (parseImageData imageData fb)),
                reused = False\<rparr> \<and>
         fst (uploadInputImageWithDedup s1 imageData userId fb) =
           Inr \<lparr>imageKey_of = k, imageHash_of = sha256_hex (buffer (parseImageData imageData fb)),
                reused = True\<rparr> \<and>
         sent s1 = sent s @ [HeadObject k,
            PutObject k (Bytes (buffer (parseImageData imageData fb)))
              (mimeType (parseImageData imageData fb))] \<and>
         sent s2 = sent s1 @ [HeadObject k]"
proof -
  have k: "k = inputKey imageData userId fb"
    by (simp add: assms(1) inputKey_def Let_def)
  have a: "objects s (inputKey imageData userId fb) = None"
    using assms(2) k by simp
  have f2: "fates s (Suc (length (sent s))) = Served"
    using assms(4) by simp
  note first = upload_absent[OF a assms(3) f2]
  have o1: "objects s1 (inputKey imageData userId fb) =
      Some \<lparr>Body = Bytes (buffer (parseImageData imageData fb)),
            ContentType = mimeType (parseImageData imageData fb)\<rparr>"
    by (simp add: assms(6) first(3))
  have f3: "fates s1 (length (sent s1)) = Served"
    using assms(5) by (simp add: assms(6) first(2,4))
  note second = upload_present[OF o1 f3]
  show ?thesis
    using first(1,2) second(1,2) by (simp add: assms(6,7) k)
qed


lemma match_data_prefix_data_uri:
  assumes "m \<noteq> []" and "CHR '';'' \<notin> set m"
  shows "match_data_prefix b (''data:'' @ m @ '';base64,'' @ d) = Some (m, d)"
proof -
  have tw: "takeWhile (\<lambda>c. c \<noteq> CHR '';'') (m @ CHR '';'' # r) = m" for r
    using assms(2) by (auto simp add: takeWhile_tail takeWhile_eq_all_conv)
  have "takeWhile (\<lambda>c. c \<noteq> CHR '';'') (m @ '';base64,'' @ d) = m"
    using tw[of "''base64,'' @ d"] by simp
  then show ?thesis
    using assms(1) by (simp add: match_data_prefix_def Let_def ci_eq_def)
qed

lemma parseImageData_data_uri:
  assumes "m \<noteq> []" and "CHR '';'' \<notin> set m"
  shows "parseImageData (''data:'' @ m @ '';base64,'' @ d) fb
           = \<lparr>buffer = Buffer_from_base64 d, mimeType = m\<rparr>"
  unfolding parseImageData_def match_data_prefix_data_uri[OF assms] Let_def
  using assms(1) by simp

lemma Buffer_from_base64_AAAA: "Buffer_from_base64 ''AAAA'' = [0, 0, 0]"
  by (simp add: Buffer_from_base64_def List.map_filter_def base64_value_def)

lemma parse_png_example:
  "parseImageData ''data:image/png;base64,AAAA'' fb = \<lparr>buffer = [0, 0, 0], mimeType = ''image/png''\<rparr>"
  using parseImageData_data_uri[of "''image/png''" "''AAAA''" fb]
  by (simp add: Buffer_from_base64_AAAA)

lemma parse_jpeg_example:
  "parseImageData ''data:image/jpeg;base64,AAAA'' fb = \<lparr>buffer = [0, 0, 0], mimeType = ''image/jpeg''\<rparr>"
  using parseImageData_data_uri[of "''image/jpeg''" "''AAAA''" fb]
  by (simp add: Buffer_from_base64_AAAA)

lemma extension_examples:
  "getExtensionFromMimeType ''image/png'' = ''png''"
  "getExtensionFromMimeType ''image/jpeg'' = ''jpg''"
  by (simp_all add: getExtensionFromMimeType_def toLowerCase_def toLowerCase_char_def)

lemma inputKey_png_example:
  "inputKey ''data:image/png;base64,AAAA'' u fb = ''inputs/'' @ u @ ''/'' @ sha256_hex [0, 0, 0] @ ''.png''"
  by (simp add: inputKey_def parse_png_example extension_examples getInputImageKey_def)

lemma inputKey_jpeg_example:
  "inputKey ''data:image/jpeg;base64,AAAA'' u fb = ''inputs/'' @ u @ ''/'' @ sha256_hex [0, 0, 0] @ ''.jpg''"
  by (simp add: inputKey_def parse_jpeg_example extension_examples getInputImageKey_def)

theorem uploadInputImageWithDedup_twice_witness:
  "objects empty_store (''inputs/u1/'' @ sha256_hex [0, 0, 0] @ ''.png'') = None \<and>
   fates empty_store 0 = Served \<and> fates empty_store 1 = Served \<and> fates empty_store 2 = Served \<and>
   fst (uploadInputImageWithDedup empty_store ''data:image/png;base64,AAAA'' ''u1'' ''image/jpeg'') =
     Inr \<lparr>imageKey_of = ''inputs/u1/'' @ sha256_hex [0, 0, 0] @ ''.png'',
          imageHash_of = sha256_hex [0, 0, 0], reused = False\<rparr> \<and>
   fst (uploadInputImageWithDedup
          (snd (uploadInputImageWithDedup empty_store ''data:image/png;base64,AAAA'' ''u1'' ''image/jpeg''))
          ''data:image/png;base64,AAAA'' ''u1'' ''image/jpeg'') =
     Inr \<lparr>imageKey_of = ''inputs/u1/'' @ sha256_hex [0, 0, 0] @ ''.png'',
          imageHash_of = sha256_hex [0, 0, 0], reused = True\<rparr>"
proof -
  have k: "''inputs/u1/'' @ sha256_hex [0, 0, 0] @ ''.png'' =
      getInputImageKey ''u1'' (sha256_hex (buffer (parseImageData ''data:image/png;base64,AAAA'' ''image/jpeg'')))
        (getExtensionFromMimeType (mimeType (parseImageData ''data:image/png;base64,AAAA'' ''image/jpeg'')))"
    by (simp add: parse_png_example extension_examples getInputImageKey_def)
  have o: "objects empty_store (''inputs/u1/'' @ sha256_hex [0, 0, 0] @ ''.png'') = None"
    by (simp add: empty_store_def)
  have f: "fates empty_store (length (sent empty_store)) = Served"
    "fates empty_store (length (sent empty_store) + 1) = Served"
    "fates empty_store (length (sent empty_store) + 2) = Served"
    by (simp_all add: empty_store_def)
  from uploadInputImageWithDedup_twice[OF k o f refl refl] o
  show ?thesis
    by (simp add: parse_png_example) (simp add: empty_store_def)
qed


lemma extension_cases:
  "getExtensionFromMimeType m \<in> set [''png'', ''webp'', ''gif'', ''jpg'']"
  by (simp add: getExtensionFromMimeType_def Let_def)

lemma input_key_inj:
  assumes "getInputImageKey a h e1 = getInputImageKey b h e2"
    and "e1 \<in> set [''png'', ''webp'', ''gif'', ''jpg'']"
    and "e2 \<in> set [''png'', ''webp'', ''gif'', ''jpg'']"
  shows "a = b"
proof -
  from assms(1) have "rev (getInputImageKey a h e1) = rev (getInputImageKey b h e2)"
    by simp
  with assms(2,3) have "e1 = e2"
    by (auto simp add: getInputImageKey_def)
  with assms(1) show ?thesis
    by (simp add: getInputImageKey_def)
qed

text \<open>
  Claim C7, as stated, fails in its second half. The two payloads below decode to the same
  bytes but declare different MIME types; uploaded by the same user, one after the other,
  they get two different keys (the extensions differ) and the second is uploaded again.
\<close>

theorem dedup_same_bytes_counterexample:
  "buffer (parseImageData ''data:image/png;base64,AAAA'' ''image/jpeg'') =
     buffer (parseImageData ''data:image/jpeg;base64,AAAA'' ''image/jpeg'') \<and>
   fst (uploadInputImageWithDedup empty_store ''data:image/png;base64,AAAA'' ''u1'' ''image/jpeg'') =
     Inr \<lparr>imageKey_of = ''inputs/u1/'' @ sha256_hex [0, 0, 0] @ ''.png'',
          imageHash_of = sha256_hex [0, 0, 0], reused = False\<rparr> \<and>
   fst (uploadInputImageWithDedup
          (snd (uploadInputImageWithDedup empty_store ''data:image/png;base64,AAAA'' ''u1'' ''image/jpeg''))
          ''data:image/jpeg;base64,AAAA'' ''u1'' ''image/jpeg'') =
     Inr \<lparr>imageKey_of = ''inputs/u1/'' @ sha256_hex [0, 0, 0] @ ''.jpg'',
          imageHash_of = sha256_hex [0, 0, 0], reused = False\<rparr> \<and>
   ''inputs/u1/'' @ sha256_hex [0, 0, 0] @ ''.png'' \<noteq> ''inputs/u1/'' @ sha256_hex [0, 0, 0] @ ''.jpg''"
proof -
  define s1 where "s1 = snd (uploadInputImageWithDedup empty_store ''data:image/png;base64,AAAA'' ''u1'' ''image/jpeg'')"
  have a: "objects empty_store (inputKey ''data:image/png;base64,AAAA'' ''u1'' ''image/jpeg'') = None"
    by (simp add: empty_store_def)
  have f: "fates empty_store (length (sent empty_store)) = Served"
    "fates empty_store (Suc (length (sent empty_store))) = Served"
    by (simp_all add: empty_store_def)
  note first = upload_absent[OF a f]
  have b: "objects s1 (inputKey ''data:image/jpeg;base64,AAAA'' ''u1'' ''image/jpeg'') = None"
    unfolding s1_def first(3) by (simp add: inputKey_png_example inputKey_jpeg_example empty_store_def)
  have g: "fates s1 (length (sent s1)) = Served" "fates s1 (Suc (length (sent s1))) = Served"
    unfolding s1_def first(4) by (simp_all add: empty_store_def)
  note second = upload_absent[OF b g]
  show ?thesis
    using first(1) second(1)
    by (simp add: s1_def[symmetric] parse_png_example parse_jpeg_example inputKey_png_example
        inputKey_jpeg_example)
qed

text \<open>
  Claim C7, amended. When two uploads of byte-identical content return, the key of an upload
  is \<open>inputs/<userId>/<hash>.<ext>\<close>; for two different users the two keys differ; and for
  the same user the two keys are equal when the two payloads resolve to the same extension.
\<close>

theorem input_key_per_user:
  "fst (uploadInputImageWithDedup s d1 u1 f1) = Inr r1 \<and>
   fst (uploadInputImageWithDedup t d2 u2 f2) = Inr r2 \<and>
   buffer (parseImageData d1 f1) = buffer (parseImageData d2 f2) \<longrightarrow>
     imageKey_of r1 = ''inputs/'' @ u1 @ ''/'' @ sha256_hex (buffer (parseImageData d1 f1)) @ ''.''
        @ getExtensionFromMimeType (mimeType (parseImageData d1 f1)) \<and>
     (u1 \<noteq> u2 \<longrightarrow> imageKey_of r1 \<noteq> imageKey_of r2) \<and>
     (u1 = u2 \<and> getExtensionFromMimeType (mimeType (parseImageData d1 f1)) =
                 getExtensionFromMimeType (mimeType (parseImageData d2 f2))
        \<longrightarrow> imageKey_of r1 = imageKey_of r2)"
proof (intro impI)
  assume a: "fst (uploadInputImageWithDedup s d1 u1 f1) = Inr r1 \<and>
   fst (uploadInputImageWithDedup t d2 u2 f2) = Inr r2 \<and>
   buffer (parseImageData d1 f1) = buffer (parseImageData d2 f2)"
  define h where "h = sha256_hex (buffer (parseImageData d1 f1))"
  define e1 where "e1 = getExtensionFromMimeType (mimeType (parseImageData d1 f1))"
  define e2 where "e2 = getExtensionFromMimeType (mimeType (parseImageData d2 f2))"
  have k1: "imageKey_of r1 = getInputImageKey u1 h e1"
    using a upload_result_key[of s d1 u1 f1 r1] by (simp add: inputKey_def Let_def h_def e1_def)
  have k2: "imageKey_of r2 = getInputImageKey u2 h e2"
    using a upload_result_key[of t d2 u2 f2 r2] by (simp add: inputKey_def Let_def h_def e2_def)
  have e: "e1 \<in> set [''png'', ''webp'', ''gif'', ''jpg'']" "e2 \<in> set [''png'', ''webp'', ''gif'', ''jpg'']"
    unfolding e1_def e2_def by (rule extension_cases)+
  have "u1 \<noteq> u2 \<longrightarrow> imageKey_of r1 \<noteq> imageKey_of r2"
    unfolding k1 k2 using input_key_inj[OF _ e] by blast
  moreover have "u1 = u2 \<and> e1 = e2 \<longrightarrow> imageKey_of r1 = imageKey_of r2"
    by (simp add: k1 k2)
  moreover have "imageKey_of r1 = ''inputs/'' @ u1 @ ''/'' @ h @ ''.'' @ e1"
    by (simp add: k1 getInputImageKey_def)
  ultimately show "imageKey_of r1 = ''inputs/'' @ u1 @ ''/'' @ sha256_hex (buffer (parseImageData d1 f1)) @ ''.''
        @ getExtensionFromMimeType (mimeType (parseImageData d1 f1)) \<and>
     (u1 \<noteq> u2 \<longrightarrow> imageKey_of r1 \<noteq> imageKey_of r2) \<and>
     (u1 = u2 \<and> getExtensionFromMimeType (mimeType (parseImageData d1 f1)) =
                 getExtensionFromMimeType (mimeType (parseImageData d2 f2))
        \<longrightarrow> imageKey_of r1 = imageKey_of r2)"
    unfolding h_def e1_def e2_def by blast
qed


lemma match_data_prefix_short: "length s < 5 \<Longrightarrow> match_data_prefix b s = None"
proof -
  assume a: "length s < 5"
  have "length (take 5 s) \<noteq> length ''data:''"
    using a by simp
  then have "take 5 s \<noteq> ''data:''" "\<not> ci_eq (take 5 s) ''data:''"
    unfolding ci_eq_def by (metis, metis length_map)
  then show ?thesis
    by (simp add: match_data_prefix_def Let_def)
qed

lemma parse_bare_example:
  "parseImageData ''AAAA'' ''image/jpg'' = \<lparr>buffer = [0, 0, 0], mimeType = ''image/jpg''\<rparr>"
  by (simp add: parseImageData_def match_data_prefix_short Buffer_from_base64_AAAA)

lemma extension_jpg_example: "getExtensionFromMimeType ''image/jpg'' = ''jpg''"
  by (simp add: getExtensionFromMimeType_def toLowerCase_def toLowerCase_char_def)

theorem input_key_per_user_witness:
  "fst (uploadInputImageWithDedup empty_store ''data:image/jpeg;base64,AAAA'' ''u1'' ''image/png'') =
     Inr \<lparr>imageKey_of = ''inputs/u1/'' @ sha256_hex [0, 0, 0] @ ''.jpg'',
          imageHash_of = sha256_hex [0, 0, 0], reused = False\<rparr> \<and>
   fst (uploadInputImageWithDedup empty_store ''data:image/jpeg;base64,AAAA'' ''u2'' ''image/png'') =
     Inr \<lparr>imageKey_of = ''inputs/u2/'' @ sha256_hex [0, 0, 0] @ ''.jpg'',
          imageHash_of = sha256_hex [0, 0, 0], reused = False\<rparr> \<and>
   fst (uploadInputImageWithDedup empty_store ''AAAA'' ''u1'' ''image/jpg'') =
     Inr \<lparr>imageKey_of = ''inputs/u1/'' @ sha256_hex [0, 0, 0] @ ''.jpg'',
          imageHash_of = sha256_hex [0, 0, 0], reused = False\<rparr> \<and>
   buffer (parseImageData ''data:image/jpeg;base64,AAAA'' ''image/png'') =
     buffer (parseImageData ''AAAA'' ''image/jpg'') \<and>
   ''u1'' \<noteq> ''u2'' \<and>
   ''inputs/u1/'' @ sha256_hex [0, 0, 0] @ ''.jpg'' \<noteq> ''inputs/u2/'' @ sha256_hex [0, 0, 0] @ ''.jpg''"
proof -
  define J where "J = ''data:image/jpeg;base64,AAAA''"
  have f: "fates empty_store (length (sent empty_store)) = Served"
    "fates empty_store (Suc (length (sent empty_store))) = Served"
    by (simp_all add: empty_store_def)
  have o: "objects empty_store k = None" for k
    by (simp add: empty_store_def)
  have kB: "inputKey ''AAAA'' ''u1'' ''image/jpg'' = ''inputs/u1/'' @ sha256_hex [0, 0, 0] @ ''.jpg''"
    by (simp add: inputKey_def parse_bare_example extension_jpg_example getInputImageKey_def)
  have r1: "fst (uploadInputImageWithDedup empty_store J ''u1'' ''image/png'') =
     Inr \<lparr>imageKey_of = ''inputs/u1/'' @ sha256_hex [0, 0, 0] @ ''.jpg'',
          imageHash_of = sha256_hex [0, 0, 0], reused = False\<rparr>"
    using upload_absent(1)[OF o f, of J "''u1''" "''image/png''"]
    by (simp add: J_def inputKey_jpeg_example parse_jpeg_example)
  have r2: "fst (uploadInputImageWithDedup empty_store J ''u2'' ''image/png'') =
     Inr \<lparr>imageKey_of = ''inputs/u2/'' @ sha256_hex [0, 0, 0] @ ''.jpg'',
          imageHash_of = sha256_hex [0, 0, 0], reused = False\<rparr>"
    using upload_absent(1)[OF o f, of J "''u2''" "''image/png''"]
    by (simp add: J_def inputKey_jpeg_example parse_jpeg_example)
  have r3: "fst (uploadInputImageWithDedup empty_store ''AAAA'' ''u1'' ''image/jpg'') =
     Inr \<lparr>imageKey_of = ''inputs/u1/'' @ sha256_hex [0, 0, 0] @ ''.jpg'',
          imageHash_of = sha256_hex [0, 0, 0], reused = False\<rparr>"
    using upload_absent(1)[OF o f, of "''AAAA''" "''u1''" "''image/jpg''"]
    by (simp add: kB parse_bare_example)
  have same: "buffer (parseImageData J ''image/png'') = buffer (parseImageData ''AAAA'' ''image/jpg'')"
    by (simp add: J_def parse_jpeg_example parse_bare_example)
  have ne: "''u1'' \<noteq> ''u2''" by simp
  have "buffer (parseImageData J ''image/png'') = buffer (parseImageData J ''image/png'')"
    by simp
  with input_key_per_user[of empty_store J "''u1''" "''image/png''" _ empty_store J "''u2''" "''image/png''" _]
    r1 r2 ne
  have d: "''inputs/u1/'' @ sha256_hex [0, 0, 0] @ ''.jpg'' \<noteq> ''inputs/u2/'' @ sha256_hex [0, 0, 0] @ ''.jpg''"
    by fastforce
  from r1 r2 r3 same ne d show ?thesis
    unfolding J_def by blast
qed


lemma split_dot_not_Nil: "split_dot s \<noteq> []"
  by (induction s) (auto split: list.split)

lemma split_dot_no_dot: "CHR ''.'' \<notin> set e \<Longrightarrow> split_dot e = [e]"
  by (induction e) auto

lemma length_split_dot_dot: "2 \<le> length (split_dot (xs @ CHR ''.'' # e))"
proof (induction xs)
  case Nil
  have "split_dot e \<noteq> []" by (rule split_dot_not_Nil)
  then show ?case by (cases "split_dot e") auto
next
  case (Cons c xs)
  then show ?case by (auto split: list.split)
qed

lemma last_split_dot: "last (split_dot (xs @ CHR ''.'' # e)) = last (split_dot e)"
proof (induction xs)
  case Nil
  then show ?case by (simp add: split_dot_not_Nil)
next
  case (Cons c xs)
  obtain x y r where r: "split_dot (xs @ CHR ''.'' # e) = x # y # r"
    using length_split_dot_dot[of xs e]
    by (cases "split_dot (xs @ CHR ''.'' # e)"; cases "tl (split_dot (xs @ CHR ''.'' # e))") auto
  show ?case
    using Cons r by auto
qed

lemma pop_split_dot:
  assumes "CHR ''.'' \<notin> set e"
  shows "pop (split_dot (stem @ ''.'' @ e)) = Some e" and "pop (split_dot e) = Some e"
proof -
  show "pop (split_dot e) = Some e"
    using assms by (simp add: pop_def split_dot_no_dot)
  show "pop (split_dot (stem @ ''.'' @ e)) = Some e"
    using assms last_split_dot[of stem e]
    by (simp add: pop_def split_dot_not_Nil split_dot_no_dot)
qed

lemma getContentTypeFromKey_table:
  assumes "CHR ''.'' \<notin> set e"
  shows "getContentTypeFromKey (stem @ ''.'' @ e) = spec_content_type_table (toLowerCase e)"
    and "getContentTypeFromKey e = spec_content_type_table (toLowerCase e)"
  unfolding getContentTypeFromKey_def pop_split_dot[OF assms] spec_content_type_table_def
  by (simp_all add: Let_def)

lemma fst_getImage:
  "fst (getImage s k) =
     (if fates s (length (sent s)) = Served then map_option (\<lambda>obj. transformToByteArray (Body obj)) (objects s k)
      else None)"
proof -
  have "fst (getImage s k) =
      (case fst (send s (GetObject k)) of
         Inr (GetObjectOutput obj) \<Rightarrow> Some (transformToByteArray (Body obj))
       | Inr out \<Rightarrow> None | Inl e \<Rightarrow> None)"
    by (simp add: getImage_def split: prod.split sum.split s3_output.split)
  then show ?thesis
    by (simp add: fst_send split: option.split)
qed

text \<open>
  Claim C9. The response of \<open>GET\<close>: status 500 when storage is not configured; otherwise
  status 400 when the key parameter is missing (or empty); otherwise status 404 with a JSON
  body whose \<open>success\<close> is false when the object cannot be retrieved (no object at the key,
  or the read is not served); otherwise status 200, the body being the bytes of the object
  and the \<open>Content-Type\<close> being the table's entry for the lower-cased extension of the key
  (the part after its last dot, or the whole key when it has no dot).
\<close>

theorem GET_image_responses:
  "(\<not> isR2Configured c \<longrightarrow> status (fst (GET c s key)) = 500) \<and>
   (isR2Configured c \<and> (key = None \<or> key = Some []) \<longrightarrow> status (fst (GET c s key)) = 400) \<and>
   (isR2Configured c \<and> key = Some k \<and> k \<noteq> [] \<and>
      (objects s k = None \<or> fates s (length (sent s)) \<noteq> Served) \<longrightarrow>
        status (fst (GET c s key)) = 404 \<and>
        payload_of (fst (GET c s key)) = Json False ImageNotFound) \<and>
   (isR2Configured c \<and> key = Some k \<and> k \<noteq> [] \<and>
      objects s k = Some obj \<and> fates s (length (sent s)) = Served \<and>
      CHR ''.'' \<notin> set e \<and> (k = e \<or> k = stem @ ''.'' @ e) \<longrightarrow>
        status (fst (GET c s key)) = 200 \<and>
        payload_of (fst (GET c s key)) = Raw (transformToByteArray (Body obj)) \<and>
        map_of (headers (fst (GET c s key))) ''Content-Type'' =
          Some (spec_content_type_table (toLowerCase e)))"
proof -
  have g: "fst (GET c s (Some k)) =
      (case fst (getImage s k) of
         None \<Rightarrow> NextResponse_json False ImageNotFound 404
       | Some imageBuffer \<Rightarrow>
           \<lparr>status = 200, payload_of = Raw imageBuffer,
            headers = [(''Content-Type'', getContentTypeFromKey k),
                       (''Cache-Control'', ''public, max-age=31536000, immutable'')]\<rparr>)"
    if "isR2Configured c" "k \<noteq> []"
    using that by (simp add: GET_def split: prod.split option.split)
  show ?thesis
    using getContentTypeFromKey_table(1)[of e stem] getContentTypeFromKey_table(2)[of e]
    by (auto simp add: g fst_getImage) (simp_all add: GET_def NextResponse_json_def)
qed


lemma toLowerCase_JPG: "toLowerCase ''JPG'' = ''jpg''"
  by (simp add: toLowerCase_def toLowerCase_char_def char_eq_nat del: of_char_eq_iff)

theorem GET_image_responses_witness:
  "\<not> isR2Configured unconfigured \<and>
   status (fst (GET unconfigured empty_store (Some ''images/u1/abc.jpg''))) = 500 \<and>
   isR2Configured example_config \<and>
   status (fst (GET example_config empty_store None)) = 400 \<and>
   objects empty_store ''images/u1/abc.jpg'' = None \<and>
   status (fst (GET example_config empty_store (Some ''images/u1/abc.jpg''))) = 404 \<and>
   payload_of (fst (GET example_config empty_store (Some ''images/u1/abc.jpg''))) = Json False ImageNotFound \<and>
   status (fst (GET example_config image_store (Some ''images/u1/abc.JPG''))) = 200 \<and>
   payload_of (fst (GET example_config image_store (Some ''images/u1/abc.JPG''))) = Raw [1, 2, 3] \<and>
   map_of (headers (fst (GET example_config image_store (Some ''images/u1/abc.JPG'')))) ''Content-Type''
     = Some ''image/jpeg''"
proof -
  have u: "\<not> isR2Configured unconfigured"
    by (simp add: isR2Configured_def unconfigured_def)
  have c: "isR2Configured example_config"
    by (simp add: isR2Configured_def example_config_def)
  have o: "objects empty_store ''images/u1/abc.jpg'' = None"
    by (simp add: empty_store_def)
  have i: "objects image_store ''images/u1/abc.JPG'' = Some \<lparr>Body = Bytes [1, 2, 3], ContentType = ''image/jpeg''\<rparr>"
    "fates image_store (length (sent image_store)) = Served"
    by (simp_all add: image_store_def)
  have k: "''images/u1/abc.JPG'' = ''images/u1/abc'' @ ''.'' @ ''JPG''" "CHR ''.'' \<notin> set ''JPG''"
    by simp_all
  have ne: "''images/u1/abc.jpg'' \<noteq> []" "''images/u1/abc.JPG'' \<noteq> []"
    by simp_all
  have 1: "status (fst (GET unconfigured empty_store (Some ''images/u1/abc.jpg''))) = 500"
    using GET_image_responses[of unconfigured empty_store "Some ''images/u1/abc.jpg''"] u by blast
  have 2: "status (fst (GET example_config empty_store None)) = 400"
    using GET_image_responses[of example_config empty_store None] c by blast
  have 3: "status (fst (GET example_config empty_store (Some ''images/u1/abc.jpg''))) = 404 \<and>
      payload_of (fst (GET example_config empty_store (Some ''images/u1/abc.jpg''))) = Json False ImageNotFound"
    using GET_image_responses[of example_config empty_store "Some ''images/u1/abc.jpg''" "''images/u1/abc.jpg''"]
      c o ne(1) by blast
  have "status (fst (GET example_config image_store (Some ''images/u1/abc.JPG''))) = 200 \<and>
      payload_of (fst (GET example_config image_store (Some ''images/u1/abc.JPG''))) =
        Raw (transformToByteArray (Body \<lparr>Body = Bytes [1, 2, 3], ContentType = ''image/jpeg''\<rparr>)) \<and>
      map_of (headers (fst (GET example_config image_store (Some ''images/u1/abc.JPG'')))) ''Content-Type''
        = Some (spec_content_type_table (toLowerCase ''JPG''))"
    using GET_image_responses[of example_config image_store "Some ''images/u1/abc.JPG''" "''images/u1/abc.JPG''"
        "\<lparr>Body = Bytes [1, 2, 3], ContentType = ''image/jpeg''\<rparr>" "''JPG''" "''images/u1/abc''"]
      c i k ne(2) by blast
  then have 4: "status (fst (GET example_config image_store (Some ''images/u1/abc.JPG''))) = 200 \<and>
      payload_of (fst (GET example_config image_store (Some ''images/u1/abc.JPG''))) = Raw [1, 2, 3] \<and>
      map_of (headers (fst (GET example_config image_store (Some ''images/u1/abc.JPG'')))) ''Content-Type''
        = Some ''image/jpeg''"
    by (simp add: toLowerCase_JPG spec_content_type_table_def)
  from u c o 1 2 3 4 show ?thesis by blast
qed

end
